theory Spec2Isabelle
  imports Main "HOL-Library.Word"
begin

unbundle bit_operations_syntax

section \<open>Machine integers and raw memory\<close>

type_synonym u8 = "8 word"
type_synonym u16 = "16 word"
type_synonym u32 = "32 word"
type_synonym u64 = "64 word"

text \<open>
  Multi-byte values are read from and written to memory in the byte order of the host.
  The sources assume a little-endian host (see the comment of \<open>ip_from_string\<close> in
  \<open>common/types.h\<close>), so the byte at the lowest address is the least significant one.
\<close>

definition le16 :: "u8 \<Rightarrow> u8 \<Rightarrow> u16" where
  "le16 b0 b1 = ucast b0 OR push_bit 8 (ucast b1)"

definition le32 :: "u8 \<Rightarrow> u8 \<Rightarrow> u8 \<Rightarrow> u8 \<Rightarrow> u32" where
  "le32 b0 b1 b2 b3 =
     ucast b0 OR push_bit 8 (ucast b1) OR push_bit 16 (ucast b2) OR push_bit 24 (ucast b3)"

definition bytes_of_u16 :: "u16 \<Rightarrow> u8 list" where
  "bytes_of_u16 w = [ucast w, ucast (drop_bit 8 w)]"

definition bytes_of_u32 :: "u32 \<Rightarrow> u8 list" where
  "bytes_of_u32 w = [ucast w, ucast (drop_bit 8 w), ucast (drop_bit 16 w), ucast (drop_bit 24 w)]"

section \<open>common/types.h\<close>

datatype ServerStatus = UP | DOWN | CHECKING

text \<open>
  \<open>struct FiveTuple\<close>: two 32-bit addresses, two 16-bit ports and one protocol byte.
  The struct is not packed: its alignment is 4, so \<open>sizeof(FiveTuple)\<close> is 16 and the
  object carries three padding bytes after \<open>protocol\<close>. The constructors initialise the
  five members only; the padding bytes \<open>pad0\<close>, \<open>pad1\<close>, \<open>pad2\<close> hold whatever the
  memory of the object held.
\<close>

record FiveTuple =
  src_ip :: u32
  dst_ip :: u32
  src_port :: u16
  dst_port :: u16
  protocol :: u8
  pad0 :: u8
  pad1 :: u8
  pad2 :: u8

text \<open>
  The constructor \<open>FiveTuple(sip, dip, sp, dp, proto)\<close>, run on memory whose three
  padding bytes hold \<open>mem\<close>. The default constructor is \<open>FiveTuple_init 0 0 0 0 0\<close>.
\<close>

definition FiveTuple_init ::
  "u32 \<Rightarrow> u32 \<Rightarrow> u16 \<Rightarrow> u16 \<Rightarrow> u8 \<Rightarrow> u8 \<times> u8 \<times> u8 \<Rightarrow> FiveTuple" where
  "FiveTuple_init sip dip sp dp proto mem =
     \<lparr>src_ip = sip, dst_ip = dip, src_port = sp, dst_port = dp, protocol = proto,
      pad0 = fst mem, pad1 = fst (snd mem), pad2 = snd (snd mem)\<rparr>"

text \<open>\<open>FiveTuple::operator==\<close>: member-wise comparison of the five fields.\<close>

definition tuple_eq :: "FiveTuple \<Rightarrow> FiveTuple \<Rightarrow> bool" where
  "tuple_eq a b \<longleftrightarrow>
     src_ip a = src_ip b \<and> dst_ip a = dst_ip b \<and> src_port a = src_port b \<and>
     dst_port a = dst_port b \<and> protocol a = protocol b"

text \<open>The 16 bytes of a \<open>FiveTuple\<close> object, as \<open>hash(&tuple, sizeof(tuple))\<close> reads them.\<close>

definition tuple_bytes :: "FiveTuple \<Rightarrow> u8 list" where
  "tuple_bytes t =
     bytes_of_u32 (src_ip t) @ bytes_of_u32 (dst_ip t) @
     bytes_of_u16 (src_port t) @ bytes_of_u16 (dst_port t) @
     [protocol t, pad0 t, pad1 t, pad2 t]"

section \<open>lb/consistent\_hash.h: MurmurHash3\<close>

definition rotl32 :: "u32 \<Rightarrow> nat \<Rightarrow> u32" where
  "rotl32 x r = push_bit r x OR drop_bit (32 - r) x"

definition fmix32 :: "u32 \<Rightarrow> u32" where
  "fmix32 h0 =
     (let h = h0 XOR drop_bit 16 h0;
          h = h * 0x85ebca6b;
          h = h XOR drop_bit 13 h;
          h = h * 0xc2b2ae35;
          h = h XOR drop_bit 16 h
      in h)"

definition c1 :: u32 where "c1 = 0xcc9e2d51"
definition c2 :: u32 where "c2 = 0x1b873593"

text \<open>One iteration of the body loop on the block \<open>k1\<close>.\<close>

definition hash_block :: "u32 \<Rightarrow> u32 \<Rightarrow> u32" where
  "hash_block k h1 =
     (let k1 = k * c1;
          k1 = rotl32 k1 15;
          k1 = k1 * c2;
          h1 = h1 XOR k1;
          h1 = rotl32 h1 13
      in h1 * 5 + 0xe6546b64)"

text \<open>The last statement of the tail switch, shared by its three cases.\<close>

definition hash_tail_mix :: "u32 \<Rightarrow> u32 \<Rightarrow> u32" where
  "hash_tail_mix k h1 =
     (let k1 = k * c1;
          k1 = rotl32 k1 15;
          k1 = k1 * c2
      in h1 XOR k1)"

text \<open>The tail switch on \<open>len & 3\<close>, with its fall-through from case 3 to case 1.\<close>

fun hash_tail :: "u8 list \<Rightarrow> u32 \<Rightarrow> u32" where
  "hash_tail [t0, t1, t2] h1 =
     hash_tail_mix (((0 XOR push_bit 16 (ucast t2)) XOR push_bit 8 (ucast t1)) XOR ucast t0) h1"
| "hash_tail [t0, t1] h1 = hash_tail_mix ((0 XOR push_bit 8 (ucast t1)) XOR ucast t0) h1"
| "hash_tail [t0] h1 = hash_tail_mix (0 XOR ucast t0) h1"
| "hash_tail _ h1 = h1"

text \<open>The body loop over the \<open>len / 4\<close> whole blocks, followed by the tail.\<close>

fun hash_loop :: "u8 list \<Rightarrow> u32 \<Rightarrow> u32" where
  "hash_loop (b0 # b1 # b2 # b3 # rest) h1 = hash_loop rest (hash_block (le32 b0 b1 b2 b3) h1)"
| "hash_loop rest h1 = hash_tail rest h1"

text \<open>\<open>MurmurHash3::hash(key, len, seed)\<close> on the \<open>len\<close> bytes at \<open>key\<close>.\<close>

definition hash :: "u8 list \<Rightarrow> u32 \<Rightarrow> u32" where
  "hash key seed = fmix32 (hash_loop key seed XOR of_nat (length key))"

definition hash_tuple :: "FiveTuple \<Rightarrow> u32" where
  "hash_tuple t = hash (tuple_bytes t) 0"

section \<open>lb/consistent\_hash.h: ConsistentHashRing\<close>

text \<open>
  \<open>std::map<uint32_t, uint32_t> ring_\<close> is kept as the sequence of its entries in
  iteration order, that is by ascending key. An iterator is the suffix of the sequence that
  starts at its entry; \<open>end()\<close> is the empty suffix.
\<close>

type_synonym ring_map = "(u32 \<times> u32) list"

record ConsistentHashRing =
  virtual_nodes :: u32
  ring :: ring_map

definition ring_init :: "u32 \<Rightarrow> ConsistentHashRing" where
  "ring_init v = \<lparr>virtual_nodes = v, ring = []\<rparr>"

text \<open>\<open>ring_[k] = v\<close>: insert at the place of the key, or overwrite the entry of the key.\<close>

fun map_assign :: "u32 \<Rightarrow> u32 \<Rightarrow> ring_map \<Rightarrow> ring_map" where
  "map_assign k v [] = [(k, v)]"
| "map_assign k v ((k', v') # r) =
     (if k < k' then (k, v) # (k', v') # r
      else if k = k' then (k, v) # r
      else (k', v') # map_assign k v r)"

text \<open>\<open>ring_.lower_bound(h)\<close>: the iterator at the first entry whose key is not below \<open>h\<close>.\<close>

definition lower_bound :: "u32 \<Rightarrow> ring_map \<Rightarrow> ring_map" where
  "lower_bound h r = dropWhile (\<lambda>e. fst e < h) r"

text \<open>\<open>std::to_string\<close> of an unsigned value: its decimal digits.\<close>

fun to_string :: "nat \<Rightarrow> string" where
  "to_string n =
     (if n < 10 then [char_of (48 + n)] else to_string (n div 10) @ [char_of (48 + n mod 10)])"

declare to_string.simps [simp del]

definition string_bytes :: "string \<Rightarrow> u8 list" where
  "string_bytes s = map of_char s"

definition node_key :: "u32 \<Rightarrow> u32 \<Rightarrow> string" where
  "node_key server_id i = to_string (unat server_id) @ ''#'' @ to_string (unat i)"

function add_node_loop :: "u32 \<Rightarrow> u32 \<Rightarrow> u32 \<Rightarrow> ring_map \<Rightarrow> ring_map" where
  "add_node_loop server_id replicas i r =
     (if i < replicas
      then add_node_loop server_id replicas (i + 1)
             (map_assign (hash (string_bytes (node_key server_id i)) 0) server_id r)
      else r)"
  by pat_completeness auto
termination
proof (relation "measure (\<lambda>(server_id, replicas, i, r). unat replicas - unat i)")
  show "wf (measure (\<lambda>(server_id :: u32, replicas :: u32, i :: u32, r :: ring_map).
            unat replicas - unat i))"
    by simp
next
  fix server_id replicas i :: u32 and r :: ring_map
  assume lt: "i < replicas"
  then have "i \<noteq> - 1"
    by (metis word_order.extremum_strict)
  then have "1 + i \<noteq> 0"
    by (metis add_eq_0_iff)
  then have "unat (i + 1) = Suc (unat i)"
    by (simp add: unatSuc add.commute)
  moreover from lt have "unat i < unat replicas"
    by (simp add: word_less_nat_alt)
  ultimately show
    "((server_id, replicas, i + 1,
       map_assign (hash (string_bytes (node_key server_id i)) 0) server_id r),
      (server_id, replicas, i, r))
     \<in> measure (\<lambda>(server_id, replicas, i, r). unat replicas - unat i)"
    by simp
qed

declare add_node_loop.simps [simp del]

definition add_node :: "u32 \<Rightarrow> u32 \<Rightarrow> ConsistentHashRing \<Rightarrow> ConsistentHashRing" where
  "add_node server_id weight R =
     (let replicas = (virtual_nodes R * weight) div 100;
          replicas = (if replicas < 1 then 1 else replicas)
      in R\<lparr>ring := add_node_loop server_id replicas 0 (ring R)\<rparr>)"

fun remove_loop :: "u32 \<Rightarrow> ring_map \<Rightarrow> ring_map" where
  "remove_loop server_id [] = []"
| "remove_loop server_id (e # r) =
     (if snd e = server_id then remove_loop server_id r else e # remove_loop server_id r)"

definition remove_node :: "u32 \<Rightarrow> ConsistentHashRing \<Rightarrow> ConsistentHashRing" where
  "remove_node server_id R = R\<lparr>ring := remove_loop server_id (ring R)\<rparr>"

text \<open>
  \<open>get_server(tuple, server_id)\<close>: \<open>None\<close> is the return value \<open>false\<close> (the out-parameter
  is left alone), \<open>Some id\<close> is \<open>true\<close> with the id written to the out-parameter.
\<close>

definition get_server :: "ConsistentHashRing \<Rightarrow> FiveTuple \<Rightarrow> u32 option" where
  "get_server R tuple =
     (if ring R = [] then None
      else let h = hash_tuple tuple;
               it = lower_bound h (ring R);
               it = (if it = [] then ring R else it)
           in Some (snd (hd it)))"

definition node_count :: "ConsistentHashRing \<Rightarrow> nat" where
  "node_count R = length (ring R)"

definition clear :: "ConsistentHashRing \<Rightarrow> ConsistentHashRing" where
  "clear R = R\<lparr>ring := []\<rparr>"

text \<open>A sequence of calls of the mutating methods, applied to a ring.\<close>

datatype ring_op = AddNode u32 u32 | RemoveNode u32 | Clear

fun ring_step :: "ring_op \<Rightarrow> ConsistentHashRing \<Rightarrow> ConsistentHashRing" where
  "ring_step (AddNode server_id weight) R = add_node server_id weight R"
| "ring_step (RemoveNode server_id) R = remove_node server_id R"
| "ring_step Clear R = clear R"

fun ring_run :: "ring_op list \<Rightarrow> ConsistentHashRing \<Rightarrow> ConsistentHashRing" where
  "ring_run [] R = R"
| "ring_run (op # ops) R = ring_run ops (ring_step op R)"

text \<open>The representation invariant of the map: keys strictly ascending.\<close>

definition ring_inv :: "ConsistentHashRing \<Rightarrow> bool" where
  "ring_inv R \<longleftrightarrow> sorted_wrt (<) (map fst (ring R))"

text \<open>
  The lookup as the specification words it, on the ring as a finite map from hash positions
  to backend ids: the entry with the least key not below \<open>h\<close>; without one, the entry with
  the least key of all; nothing when the map is empty.
\<close>

definition spec_lookup :: "u32 \<Rightarrow> (u32 \<rightharpoonup> u32) \<Rightarrow> u32 option" where
  "spec_lookup h m =
     (if dom m = {} then None
      else if \<exists>k \<in> dom m. h \<le> k then m (Min {k \<in> dom m. h \<le> k})
      else m (Min (dom m)))"

section \<open>lb/real\_server.h: RealServerManager\<close>

type_synonym MacAddr = "u8 list"

record RealServer =
  rs_id :: u32
  ip :: u32
  port :: u16
  mac :: MacAddr
  weight :: u32
  status :: ServerStatus
  conn_count :: u64
  total_conn :: u64
  bytes_in :: u64
  bytes_out :: u64

definition is_available :: "RealServer \<Rightarrow> bool" where
  "is_available rs \<longleftrightarrow> status rs = UP"

text \<open>
  \<open>std::unordered_map<uint32_t, RealServer> servers_\<close> as a map, next to the embedded ring,
  which the constructor creates with 150 virtual nodes.
\<close>

record RealServerManager =
  servers :: "u32 \<rightharpoonup> RealServer"
  hash_ring :: ConsistentHashRing

definition RealServerManager_init :: RealServerManager where
  "RealServerManager_init = \<lparr>servers = Map.empty, hash_ring = ring_init 150\<rparr>"

definition add_server :: "RealServer \<Rightarrow> RealServerManager \<Rightarrow> RealServerManager" where
  "add_server rs M =
     M\<lparr>servers := (servers M)(rs_id rs \<mapsto> rs),
       hash_ring := add_node (rs_id rs) (weight rs) (hash_ring M)\<rparr>"

definition remove_server :: "u32 \<Rightarrow> RealServerManager \<Rightarrow> RealServerManager" where
  "remove_server sid M =
     M\<lparr>servers := (servers M)(sid := None), hash_ring := remove_node sid (hash_ring M)\<rparr>"

definition set_status :: "u32 \<Rightarrow> ServerStatus \<Rightarrow> RealServerManager \<Rightarrow> RealServerManager" where
  "set_status sid st M =
     (case servers M sid of
        Some rs \<Rightarrow> M\<lparr>servers := (servers M)(sid \<mapsto> rs\<lparr>status := st\<rparr>)\<rparr>
      | None \<Rightarrow> M)"

text \<open>
  \<open>select_server\<close> returns a pointer into the table or \<open>nullptr\<close>; the model returns the
  entry pointed to, or \<open>None\<close>.
\<close>

definition select_server :: "RealServerManager \<Rightarrow> FiveTuple \<Rightarrow> RealServer option" where
  "select_server M tuple =
     (case get_server (hash_ring M) tuple of
        None \<Rightarrow> None
      | Some server_id \<Rightarrow>
          (case servers M server_id of
             None \<Rightarrow> None
           | Some rs \<Rightarrow> if \<not> is_available rs then None else Some rs))"

section \<open>lb/session.h: SessionManager\<close>

record Session =
  client_tuple :: FiveTuple
  server_tuple :: FiveTuple
  real_server_id :: u32
  create_time :: u64
  last_active :: u64
  packets :: u64
  bytes :: u64

record Statistics =
  rx_packets :: u64
  tx_packets :: u64
  dropped_packets :: u64
  arp_packets :: u64
  icmp_packets :: u64
  tcp_packets :: u64
  udp_packets :: u64
  forwarded_packets :: u64
  nat_translations :: u64
  active_sessions :: u64
  total_sessions :: u64

definition Statistics_zero :: Statistics where
  "Statistics_zero =
     \<lparr>rx_packets = 0, tx_packets = 0, dropped_packets = 0, arp_packets = 0, icmp_packets = 0,
      tcp_packets = 0, udp_packets = 0, forwarded_packets = 0, nat_translations = 0,
      active_sessions = 0, total_sessions = 0\<rparr>"

text \<open>
  The clock is read by \<open>touch\<close>, \<open>is_expired\<close> and \<open>get_timestamp\<close>; in the model every
  operation receives the reading \<open>now\<close> (nanoseconds of the steady clock) as an argument.
\<close>

definition is_expired :: "u64 \<Rightarrow> u64 \<Rightarrow> Session \<Rightarrow> bool" where
  "is_expired timeout now s \<longleftrightarrow> now - last_active s > timeout * 1000000000"

definition touch :: "u64 \<Rightarrow> Session \<Rightarrow> Session" where
  "touch now s = s\<lparr>last_active := now\<rparr>"

text \<open>
  \<open>std::unordered_map<FiveTuple, Session, FiveTupleHash> sessions_\<close> as the list of its
  entries; keys are compared with \<open>operator==\<close>, and no two entries have equal keys. The
  iteration order of the container is unspecified; the list keeps insertion order.
\<close>

type_synonym session_map = "(FiveTuple \<times> Session) list"

fun sessions_find :: "FiveTuple \<Rightarrow> session_map \<Rightarrow> Session option" where
  "sessions_find t [] = None"
| "sessions_find t (e # r) = (if tuple_eq (fst e) t then Some (snd e) else sessions_find t r)"

text \<open>\<open>sessions_[t] = s\<close>, also used for the writes through an iterator to the entry of \<open>t\<close>.\<close>

fun sessions_assign :: "FiveTuple \<Rightarrow> Session \<Rightarrow> session_map \<Rightarrow> session_map" where
  "sessions_assign t s [] = [(t, s)]"
| "sessions_assign t s (e # r) =
     (if tuple_eq (fst e) t then (fst e, s) # r else e # sessions_assign t s r)"

fun sessions_erase :: "FiveTuple \<Rightarrow> session_map \<Rightarrow> session_map" where
  "sessions_erase t [] = []"
| "sessions_erase t (e # r) = (if tuple_eq (fst e) t then r else e # sessions_erase t r)"

record SessionManager =
  sessions :: session_map
  timeout_sec :: u32
  stats :: Statistics

definition SessionManager_init :: SessionManager where
  "SessionManager_init = \<lparr>sessions = [], timeout_sec = 300, stats = Statistics_zero\<rparr>"

definition set_timeout :: "u32 \<Rightarrow> SessionManager \<Rightarrow> SessionManager" where
  "set_timeout seconds M = M\<lparr>timeout_sec := seconds\<rparr>"

text \<open>\<open>lookup\<close>: the result is the copy written to the out-parameter, \<open>None\<close> for \<open>false\<close>.\<close>

definition lookup :: "FiveTuple \<Rightarrow> u64 \<Rightarrow> SessionManager \<Rightarrow> Session option \<times> SessionManager" where
  "lookup tuple now M =
     (case sessions_find tuple (sessions M) of
        Some s \<Rightarrow>
          (let s' = touch now s
           in (Some s', M\<lparr>sessions := sessions_assign tuple s' (sessions M)\<rparr>))
      | None \<Rightarrow> (None, M))"

text \<open>
  \<open>create\<close>: \<open>server_tuple\<close> is not assigned and keeps its default construction (its padding
  bytes are taken as zero here; nothing reads them).
\<close>

definition create :: "FiveTuple \<Rightarrow> u32 \<Rightarrow> u64 \<Rightarrow> SessionManager \<Rightarrow> SessionManager" where
  "create client server_id now M =
     (let session = \<lparr>client_tuple = client,
                     server_tuple = FiveTuple_init 0 0 0 0 0 (0, 0, 0),
                     real_server_id = server_id,
                     create_time = now,
                     last_active = now,
                     packets = 0,
                     bytes = 0\<rparr>
      in M\<lparr>sessions := sessions_assign client session (sessions M),
           stats := (stats M)\<lparr>total_sessions := total_sessions (stats M) + 1,
                              active_sessions := active_sessions (stats M) + 1\<rparr>\<rparr>)"

definition update_stats :: "FiveTuple \<Rightarrow> u64 \<Rightarrow> u64 \<Rightarrow> SessionManager \<Rightarrow> SessionManager" where
  "update_stats tuple n now M =
     (case sessions_find tuple (sessions M) of
        Some s \<Rightarrow>
          (let s = touch now s;
               s = s\<lparr>packets := packets s + 1\<rparr>;
               s = s\<lparr>bytes := bytes s + n\<rparr>
           in M\<lparr>sessions := sessions_assign tuple s (sessions M)\<rparr>)
      | None \<Rightarrow> M)"

definition remove :: "FiveTuple \<Rightarrow> SessionManager \<Rightarrow> SessionManager" where
  "remove tuple M =
     (if sessions_find tuple (sessions M) \<noteq> None
      then M\<lparr>sessions := sessions_erase tuple (sessions M),
             stats := (stats M)\<lparr>active_sessions := active_sessions (stats M) - 1\<rparr>\<rparr>
      else M\<lparr>sessions := sessions_erase tuple (sessions M)\<rparr>)"

text \<open>
  The sweep of \<open>cleanup\<close>: the entries kept, the count \<open>removed\<close> and the counter
  \<open>active_sessions\<close>, both stepped once per erased entry.
\<close>

fun cleanup_loop ::
  "u64 \<Rightarrow> u64 \<Rightarrow> session_map \<Rightarrow> u64 \<Rightarrow> u64 \<Rightarrow> session_map \<times> u64 \<times> u64" where
  "cleanup_loop timeout now [] removed active = ([], removed, active)"
| "cleanup_loop timeout now (e # r) removed active =
     (if is_expired timeout now (snd e)
      then cleanup_loop timeout now r (removed + 1) (active - 1)
      else (case cleanup_loop timeout now r removed active of
              (kept, removed', active') \<Rightarrow> (e # kept, removed', active')))"

definition cleanup :: "u64 \<Rightarrow> SessionManager \<Rightarrow> u64 \<times> SessionManager" where
  "cleanup now M =
     (case cleanup_loop (ucast (timeout_sec M)) now (sessions M) 0 (active_sessions (stats M)) of
        (kept, removed, active) \<Rightarrow>
          (removed, M\<lparr>sessions := kept, stats := (stats M)\<lparr>active_sessions := active\<rparr>\<rparr>))"

definition active_count :: "SessionManager \<Rightarrow> nat" where
  "active_count M = length (sessions M)"

definition get_stats :: "SessionManager \<Rightarrow> Statistics" where
  "get_stats M = stats M"

text \<open>The counter \<open>active_sessions\<close> agrees with the number of entries of the map.\<close>

definition session_inv :: "SessionManager \<Rightarrow> bool" where
  "session_inv M \<longleftrightarrow> active_sessions (stats M) = of_nat (length (sessions M))"

section \<open>protocol/ip.h: IpChecksum\<close>

text \<open>
  The summation loop of \<open>calculate\<close>: one 16-bit word per step, read in host order, and
  the odd byte at the end.
\<close>

fun sum_loop :: "u8 list \<Rightarrow> u32 \<Rightarrow> u32" where
  "sum_loop (b0 # b1 # rest) s = sum_loop rest (s + ucast (le16 b0 b1))"
| "sum_loop [b0] s = s + ucast b0"
| "sum_loop [] s = s"

text \<open>\<open>while (sum >> 16) sum = (sum & 0xFFFF) + (sum >> 16);\<close>\<close>

function fold_carries :: "u32 \<Rightarrow> u32" where
  "fold_carries s =
     (if drop_bit 16 s \<noteq> 0 then fold_carries ((s AND 0xFFFF) + drop_bit 16 s) else s)"
  by pat_completeness auto
termination
proof (relation "measure unat")
  show "wf (measure (unat :: u32 \<Rightarrow> nat))"
    by simp
next
  fix s :: u32
  assume nz: "drop_bit 16 s \<noteq> 0"
  have lo: "unat (s AND 0xFFFF) = unat s mod 65536"
  proof -
    have "s AND 0xFFFF = take_bit 16 s"
      by (simp add: take_bit_eq_mask mask_eq_exp_minus_1)
    then show ?thesis
      by (simp add: unsigned_take_bit_eq take_bit_eq_mod unat_mod)
  qed
  have hi: "unat (drop_bit 16 s) = unat s div 65536"
    by (simp add: unat_drop_bit_eq drop_bit_eq_div unat_div)
  have bound: "unat s < 4294967296"
    using unsigned_less [of s, where 'a = nat] by simp
  from nz have pos: "0 < unat s div 65536"
    unfolding hi [symmetric] by (simp add: unat_gt_0)
  have "unat s mod 65536 + unat s div 65536 < 2 ^ LENGTH(32)"
    using bound by simp
  then have "unat ((s AND 0xFFFF) + drop_bit 16 s) = unat s mod 65536 + unat s div 65536"
    using lo hi by (simp add: unat_add_lem [THEN iffD1])
  moreover have "unat s mod 65536 + unat s div 65536 < unat s"
  proof -
    have "unat s = unat s div 65536 * 65536 + unat s mod 65536"
      by simp
    with pos show ?thesis
      by linarith
  qed
  ultimately show "((s AND 0xFFFF) + drop_bit 16 s, s) \<in> measure unat"
    by simp
qed

declare fold_carries.simps [simp del]

definition calculate :: "u8 list \<Rightarrow> u16" where
  "calculate data = ucast (NOT (fold_carries (sum_loop data 0)))"

text \<open>
  \<open>incremental_update\<close>: the operands of \<open>~\<close> are promoted to 32 bits before they are
  complemented and masked.
\<close>

definition incremental_update :: "u16 \<Rightarrow> u16 \<Rightarrow> u16 \<Rightarrow> u16" where
  "incremental_update old_sum old_val new_val =
     (let s = (NOT (ucast old_sum) AND 0xFFFF) + (NOT (ucast old_val) AND 0xFFFF) + ucast new_val
      in ucast (NOT (fold_carries s)))"

text \<open>
  The aligned 16-bit field number \<open>i\<close> of a header (bytes \<open>2 * i\<close> and \<open>2 * i + 1\<close>), read
  and overwritten in host order as an assignment to a \<open>uint16_t\<close> member does.
\<close>

definition field16 :: "u8 list \<Rightarrow> nat \<Rightarrow> u16" where
  "field16 h i = le16 (h ! (2 * i)) (h ! (2 * i + 1))"

definition replace_field16 :: "u8 list \<Rightarrow> nat \<Rightarrow> u16 \<Rightarrow> u8 list" where
  "replace_field16 h i v = h[2 * i := ucast v, 2 * i + 1 := ucast (drop_bit 8 v)]"

text \<open>
  For the proofs: the sum of the 16-bit words of a buffer as a natural number, and the value
  the carry loop reaches from \<open>n\<close>: zero for zero, otherwise the representative of \<open>n\<close>
  modulo \<open>0xFFFF\<close> between 1 and \<open>0xFFFF\<close>.
\<close>

fun wsum :: "u8 list \<Rightarrow> nat" where
  "wsum (b0 # b1 # rest) = unat (le16 b0 b1) + wsum rest"
| "wsum [b0] = unat b0"
| "wsum [] = 0"

definition fold_nat :: "nat \<Rightarrow> nat" where
  "fold_nat n = (if n = 0 then 0 else (n - 1) mod 65535 + 1)"

section \<open>protocol/ethernet.h and protocol/ip.h: ProtocolParser\<close>

record PacketMeta =
  src_mac :: MacAddr
  dst_mac :: MacAddr
  ether_type :: u16
  src_ip :: u32
  dst_ip :: u32
  ip_protocol :: u8
  ip_ttl :: u8
  src_port :: u16
  dst_port :: u16
  l2_offset :: u16
  l3_offset :: u16
  l4_offset :: u16
  payload_offset :: u16
  total_len :: u16
  payload_len :: u16

text \<open>\<open>ntohs\<close> on the little-endian host: the two bytes swapped.\<close>

definition ntohs :: "u16 \<Rightarrow> u16" where
  "ntohs w = push_bit 8 w OR drop_bit 8 w"

text \<open>
  A header pointer is the buffer with the offset of the header. \<open>EthernetHeader\<close> is at
  offset 0: \<open>dst_mac[6]\<close>, \<open>src_mac[6]\<close>, \<open>ether_type\<close>.
\<close>

definition HEADER_SIZE :: nat where "HEADER_SIZE = 14"

definition get_ether_type :: "u8 list \<Rightarrow> u16" where
  "get_ether_type pkt = ntohs (le16 (pkt ! 12) (pkt ! 13))"

definition is_ipv4 :: "u8 list \<Rightarrow> bool" where
  "is_ipv4 pkt \<longleftrightarrow> get_ether_type pkt = 0x0800"

text \<open>\<open>IPv4Header\<close> at offset \<open>off\<close> (20 bytes, packed).\<close>

definition get_ihl :: "u8 list \<Rightarrow> nat \<Rightarrow> u8" where
  "get_ihl pkt off = (pkt ! off) AND 0x0F"

definition ip_get_header_len :: "u8 list \<Rightarrow> nat \<Rightarrow> nat" where
  "ip_get_header_len pkt off = unat (get_ihl pkt off) * 4"

definition ip_ttl_at :: "u8 list \<Rightarrow> nat \<Rightarrow> u8" where
  "ip_ttl_at pkt off = pkt ! (off + 8)"

definition ip_protocol_at :: "u8 list \<Rightarrow> nat \<Rightarrow> u8" where
  "ip_protocol_at pkt off = pkt ! (off + 9)"

definition ip_src_ip_at :: "u8 list \<Rightarrow> nat \<Rightarrow> u32" where
  "ip_src_ip_at pkt off = le32 (pkt ! (off + 12)) (pkt ! (off + 13)) (pkt ! (off + 14)) (pkt ! (off + 15))"

definition ip_dst_ip_at :: "u8 list \<Rightarrow> nat \<Rightarrow> u32" where
  "ip_dst_ip_at pkt off = le32 (pkt ! (off + 16)) (pkt ! (off + 17)) (pkt ! (off + 18)) (pkt ! (off + 19))"

definition is_tcp :: "u8 list \<Rightarrow> nat \<Rightarrow> bool" where
  "is_tcp pkt off \<longleftrightarrow> ip_protocol_at pkt off = 6"

definition is_udp :: "u8 list \<Rightarrow> nat \<Rightarrow> bool" where
  "is_udp pkt off \<longleftrightarrow> ip_protocol_at pkt off = 17"

text \<open>\<open>TcpHeader\<close> (20 bytes) and \<open>UdpHeader\<close> (8 bytes) at offset \<open>off\<close>; the ports are copied raw.\<close>

definition l4_src_port_at :: "u8 list \<Rightarrow> nat \<Rightarrow> u16" where
  "l4_src_port_at pkt off = le16 (pkt ! off) (pkt ! (off + 1))"

definition l4_dst_port_at :: "u8 list \<Rightarrow> nat \<Rightarrow> u16" where
  "l4_dst_port_at pkt off = le16 (pkt ! (off + 2)) (pkt ! (off + 3))"

definition tcp_get_header_len :: "u8 list \<Rightarrow> nat \<Rightarrow> nat" where
  "tcp_get_header_len pkt off = unat (drop_bit 4 (pkt ! (off + 12)) AND 0x0F) * 4"

text \<open>
  \<open>ProtocolParser::parse(pkt, len, meta)\<close>. The buffer \<open>pkt\<close> is the list of its \<open>len\<close>
  bytes. \<open>meta\<close> is the out-parameter: the result is the return value and the content of
  \<open>meta\<close> after the call; members the call does not assign keep their content. The offsets
  and lengths of \<open>meta\<close> are 16 bits wide, the arithmetic on \<open>len\<close> is that of \<open>size_t\<close>.
\<close>

definition parse :: "u8 list \<Rightarrow> PacketMeta \<Rightarrow> bool \<times> PacketMeta" where
  "parse pkt meta =
     (let len = length pkt in
      if len < HEADER_SIZE then (False, meta)
      else
        let meta = meta\<lparr>dst_mac := take 6 pkt\<rparr>;
            meta = meta\<lparr>src_mac := take 6 (drop 6 pkt)\<rparr>;
            meta = meta\<lparr>ether_type := get_ether_type pkt\<rparr>;
            meta = meta\<lparr>l2_offset := 0\<rparr>;
            meta = meta\<lparr>l3_offset := of_nat HEADER_SIZE\<rparr>
        in
        if \<not> is_ipv4 pkt then (True, meta)
        else if len < unat (l3_offset meta) + 20 then (False, meta)
        else
          let ip = unat (l3_offset meta);
              meta = meta\<lparr>src_ip := ip_src_ip_at pkt ip\<rparr>;
              meta = meta\<lparr>dst_ip := ip_dst_ip_at pkt ip\<rparr>;
              meta = meta\<lparr>ip_protocol := ip_protocol_at pkt ip\<rparr>;
              meta = meta\<lparr>ip_ttl := ip_ttl_at pkt ip\<rparr>;
              meta = meta\<lparr>l4_offset := of_nat (unat (l3_offset meta) + ip_get_header_len pkt ip)\<rparr>;
              meta = meta\<lparr>total_len := of_nat len\<rparr>;
              meta =
                (if is_tcp pkt ip \<and> len \<ge> unat (l4_offset meta) + 20 then
                   let tcp = unat (l4_offset meta);
                       meta = meta\<lparr>src_port := l4_src_port_at pkt tcp\<rparr>;
                       meta = meta\<lparr>dst_port := l4_dst_port_at pkt tcp\<rparr>
                   in meta\<lparr>payload_offset :=
                             of_nat (unat (l4_offset meta) + tcp_get_header_len pkt tcp)\<rparr>
                 else if is_udp pkt ip \<and> len \<ge> unat (l4_offset meta) + 8 then
                   let udp = unat (l4_offset meta);
                       meta = meta\<lparr>src_port := l4_src_port_at pkt udp\<rparr>;
                       meta = meta\<lparr>dst_port := l4_dst_port_at pkt udp\<rparr>
                   in meta\<lparr>payload_offset := of_nat (unat (l4_offset meta) + 8)\<rparr>
                 else
                   let meta = meta\<lparr>src_port := 0\<rparr>;
                       meta = meta\<lparr>dst_port := 0\<rparr>
                   in meta\<lparr>payload_offset := l4_offset meta\<rparr>);
              meta = meta\<lparr>payload_len := of_nat len - payload_offset meta\<rparr>
          in (True, meta))"

text \<open>A \<open>PacketMeta\<close> whose members are all zero, to stand for the caller's object.\<close>

definition PacketMeta_zero :: PacketMeta where
  "PacketMeta_zero =
     \<lparr>src_mac = replicate 6 0, dst_mac = replicate 6 0, ether_type = 0, src_ip = 0, dst_ip = 0,
      ip_protocol = 0, ip_ttl = 0, src_port = 0, dst_port = 0, l2_offset = 0, l3_offset = 0,
      l4_offset = 0, payload_offset = 0, total_len = 0, payload_len = 0\<rparr>"

text \<open>
  The header lengths an IPv4 frame declares fit into the frame: the IPv4 header of
  \<open>ihl * 4\<close> bytes ends within \<open>len\<close>, and so does the TCP header of \<open>data_offset * 4\<close>
  bytes when the frame is long enough for the parser to read it.
\<close>

definition header_lengths_fit :: "u8 list \<Rightarrow> bool" where
  "header_lengths_fit pkt \<longleftrightarrow>
     (let len = length pkt; l4 = HEADER_SIZE + ip_get_header_len pkt HEADER_SIZE
      in l4 \<le> len \<and>
         (is_tcp pkt HEADER_SIZE \<and> l4 + 20 \<le> len \<longrightarrow> l4 + tcp_get_header_len pkt l4 \<le> len))"

section \<open>core/ring\_buffer.h: SPSCRingBuffer\<close>

text \<open>
  \<open>SPSCRingBuffer<T, Size>\<close>, run by one thread: the two indices and the slots. The
  template parameter \<open>Size\<close> is the first argument of every operation; the static
  assertions require it to be a power of two and at least 2.
\<close>

record 'a SPSCRingBuffer =
  head :: nat
  tail :: nat
  buffer :: "'a list"

text \<open>The constructor; \<open>resize\<close> fills the slots with the value-initialised element \<open>d\<close>.\<close>

definition SPSCRingBuffer_init :: "nat \<Rightarrow> 'a \<Rightarrow> 'a SPSCRingBuffer" where
  "SPSCRingBuffer_init Size d = \<lparr>head = 0, tail = 0, buffer = replicate Size d\<rparr>"

definition push :: "nat \<Rightarrow> 'a \<Rightarrow> 'a SPSCRingBuffer \<Rightarrow> bool \<times> 'a SPSCRingBuffer" where
  "push Size item q =
     (let current_tail = tail q;
          next_tail = (current_tail + 1) AND (Size - 1)
      in if next_tail = head q then (False, q)
         else (True, q\<lparr>buffer := (buffer q)[current_tail := item], tail := next_tail\<rparr>))"

text \<open>\<open>pop\<close>: \<open>Some\<close> of the value written to the out-parameter, \<open>None\<close> for \<open>false\<close>.\<close>

definition pop :: "nat \<Rightarrow> 'a SPSCRingBuffer \<Rightarrow> 'a option \<times> 'a SPSCRingBuffer" where
  "pop Size q =
     (let current_head = head q
      in if current_head = tail q then (None, q)
         else
           let item = buffer q ! current_head;
               next_head = (current_head + 1) AND (Size - 1)
           in (Some item, q\<lparr>head := next_head\<rparr>))"

text \<open>
  \<open>size\<close>: \<open>(tail - head + Size) & (Size - 1)\<close>; the indices stay below \<open>Size\<close>, so the
  wrap of \<open>tail - head\<close> is undone by the addition and the sum is written without it.
\<close>

definition size_spsc :: "nat \<Rightarrow> 'a SPSCRingBuffer \<Rightarrow> nat" where
  "size_spsc Size q = (tail q + Size - head q) AND (Size - 1)"

definition empty_spsc :: "'a SPSCRingBuffer \<Rightarrow> bool" where
  "empty_spsc q \<longleftrightarrow> head q = tail q"

definition capacity :: "nat \<Rightarrow> nat" where
  "capacity Size = Size - 1"

text \<open>A sequential run of pushes and pops, with what each call returned.\<close>

datatype 'a spsc_op = Push 'a | Pop

datatype 'a spsc_event = PushOk 'a | PushFull 'a | PopOk 'a | PopEmpty

definition spsc_step :: "nat \<Rightarrow> 'a spsc_op \<Rightarrow> 'a SPSCRingBuffer \<Rightarrow> 'a spsc_event \<times> 'a SPSCRingBuffer" where
  "spsc_step Size op q =
     (case op of
        Push x \<Rightarrow> (case push Size x q of (ok, q') \<Rightarrow> (if ok then PushOk x else PushFull x, q'))
      | Pop \<Rightarrow> (case pop Size q of (Some y, q') \<Rightarrow> (PopOk y, q') | (None, q') \<Rightarrow> (PopEmpty, q')))"

fun spsc_run :: "nat \<Rightarrow> 'a spsc_op list \<Rightarrow> 'a SPSCRingBuffer \<Rightarrow> 'a spsc_event list \<times> 'a SPSCRingBuffer" where
  "spsc_run Size [] q = ([], q)"
| "spsc_run Size (op # ops) q =
     (case spsc_step Size op q of
        (ev, q') \<Rightarrow> (case spsc_run Size ops q' of (evs, q'') \<Rightarrow> (ev # evs, q'')))"

fun pushed_values :: "'a spsc_event list \<Rightarrow> 'a list" where
  "pushed_values [] = []"
| "pushed_values (PushOk x # evs) = x # pushed_values evs"
| "pushed_values (_ # evs) = pushed_values evs"

fun popped_values :: "'a spsc_event list \<Rightarrow> 'a list" where
  "popped_values [] = []"
| "popped_values (PopOk x # evs) = x # popped_values evs"
| "popped_values (_ # evs) = popped_values evs"

text \<open>The items pending in the buffer, oldest first: the slots from \<open>head\<close> up to \<open>tail\<close>.\<close>

definition pending :: "nat \<Rightarrow> 'a SPSCRingBuffer \<Rightarrow> 'a list" where
  "pending Size q = map (\<lambda>i. buffer q ! ((head q + i) mod Size)) [0..<(tail q + Size - head q) mod Size]"

text \<open>The indices stay inside the buffer of \<open>Size\<close> slots.\<close>

definition spsc_inv :: "nat \<Rightarrow> 'a SPSCRingBuffer \<Rightarrow> bool" where
  "spsc_inv Size q \<longleftrightarrow> head q < Size \<and> tail q < Size \<and> length (buffer q) = Size"

section \<open>Concrete inputs\<close>

text \<open>The \<open>RealServer\<close> default constructor.\<close>

definition RealServer_default :: RealServer where
  "RealServer_default =
     \<lparr>rs_id = 0, ip = 0, port = 0, mac = replicate 6 0, weight = 100, status = CHECKING,
      conn_count = 0, total_conn = 0, bytes_in = 0, bytes_out = 0\<rparr>"

text \<open>Two backends as \<open>load_from_config\<close> builds them, of weight 1 (one ring entry each).\<close>

definition backend1 :: RealServer where
  "backend1 = RealServer_default\<lparr>rs_id := 1, ip := 0x0A00000A, port := 8080, weight := 1, status := UP\<rparr>"

definition backend2 :: RealServer where
  "backend2 = RealServer_default\<lparr>rs_id := 2, ip := 0x0B00000A, port := 8080, weight := 1, status := UP\<rparr>"

text \<open>The tuple of the specification's scenarios, in an object whose padding bytes are zero.\<close>

definition tuple_T :: FiveTuple where
  "tuple_T = FiveTuple_init 0x01020304 0x05060708 80 8080 6 (0, 0, 0)"

text \<open>
  Ethernet frames. \<open>frame_tcp\<close>: 64 bytes, IPv4 with \<open>ihl = 5\<close>, TCP with data offset 5,
  ports 12345 and 80. \<open>frame_arp\<close>: 60 bytes with EtherType \<open>0x0806\<close>.
  \<open>frame_ihl15\<close>: 60 bytes, IPv4 whose header declares \<open>ihl = 15\<close>, that is 60 bytes of
  IPv4 header. \<open>frame_ihl4\<close>: 30 bytes, IPv4 whose header declares \<open>ihl = 4\<close> and a total
  length of 16 bytes.
\<close>

definition frame_tcp :: "u8 list" where
  "frame_tcp =
     [0x00, 0x11, 0x22, 0x33, 0x44, 0x55, 0xAA, 0xBB, 0xCC, 0xDD, 0xEE, 0xFF, 0x08, 0x00] @
     [0x45, 0x00, 0x00, 0x28, 0x00, 0x00, 0x00, 0x00, 0x40, 0x06, 0x00, 0x00,
      0x04, 0x03, 0x02, 0x01, 0x08, 0x07, 0x06, 0x05] @
     [0x30, 0x39, 0x00, 0x50, 0, 0, 0, 0, 0, 0, 0, 0, 0x50, 0, 0, 0, 0, 0, 0, 0] @
     replicate 10 0"

definition frame_arp :: "u8 list" where
  "frame_arp =
     [0xFF, 0xFF, 0xFF, 0xFF, 0xFF, 0xFF, 0xAA, 0xBB, 0xCC, 0xDD, 0xEE, 0xFF, 0x08, 0x06] @
     replicate 46 0"

definition frame_ihl15 :: "u8 list" where
  "frame_ihl15 =
     [0x00, 0x11, 0x22, 0x33, 0x44, 0x55, 0xAA, 0xBB, 0xCC, 0xDD, 0xEE, 0xFF, 0x08, 0x00] @
     [0x4F, 0x00, 0x00, 0x2E, 0x00, 0x00, 0x00, 0x00, 0x40, 0x06, 0x00, 0x00,
      0x04, 0x03, 0x02, 0x01, 0x08, 0x07, 0x06, 0x05] @
     replicate 26 0"

definition frame_ihl4 :: "u8 list" where
  "frame_ihl4 =
     [0x00, 0x11, 0x22, 0x33, 0x44, 0x55, 0xAA, 0xBB, 0xCC, 0xDD, 0xEE, 0xFF, 0x08, 0x00] @
     [0x44, 0x00, 0x00, 0x10, 0x00, 0x00, 0x00, 0x00, 0x40, 0x00, 0x00, 0x00,
      0x04, 0x03, 0x02, 0x01]"

text \<open>A 20-byte IPv4 header (192.168.1.1 to 192.168.1.2, TCP), checksum field zero.\<close>

definition ip_header_example :: "u8 list" where
  "ip_header_example =
     [0x45, 0x00, 0x00, 0x28, 0x00, 0x01, 0x00, 0x00, 0x40, 0x06, 0x00, 0x00,
      0xC0, 0xA8, 0x01, 0x01, 0xC0, 0xA8, 0x01, 0x02]"

section \<open>The consistent-hash ring\<close>

lemma remove_loop_filter: "remove_loop sid r = filter (\<lambda>e. snd e \<noteq> sid) r"
  by (induction r) auto

lemma fst_set_map_assign: "fst ` set (map_assign k v r) = insert k (fst ` set r)"
  by (induction k v r rule: map_assign.induct) auto

lemma sorted_map_assign:
  "sorted_wrt (<) (map fst r) \<Longrightarrow> sorted_wrt (<) (map fst (map_assign k v r))"
proof (induction r)
  case Nil
  then show ?case by simp
next
  case (Cons e r)
  obtain k' v' where e: "e = (k', v')" by (cases e)
  from Cons.prems have tl: "sorted_wrt (<) (map fst r)" and hd: "\<forall>x \<in> fst ` set r. k' < x"
    by (auto simp: e)
  show ?case
  proof (cases "k < k'")
    case True
    with Cons.prems show ?thesis by (auto simp: e)
  next
    case False
    show ?thesis
    proof (cases "k = k'")
      case True
      with Cons.prems show ?thesis by (auto simp: e)
    next
      case ne: False
      with False have "k' < k" by simp
      with hd have "\<forall>x \<in> fst ` set (map_assign k v r). k' < x"
        by (simp add: fst_set_map_assign)
      with False ne Cons.IH [OF tl] show ?thesis
        by (simp add: e)
    qed
  qed
qed

lemma sorted_add_node_loop:
  "sorted_wrt (<) (map fst r) \<Longrightarrow> sorted_wrt (<) (map fst (add_node_loop sid n i r))"
proof (induction sid n i r rule: add_node_loop.induct)
  case (1 sid n i r)
  show ?case
  proof (cases "i < n")
    case True
    with "1.IH" [OF True] "1.prems" show ?thesis
      by (subst add_node_loop.simps) (simp add: sorted_map_assign)
  next
    case False
    with "1.prems" show ?thesis
      by (subst add_node_loop.simps) simp
  qed
qed

lemma ring_inv_init: "ring_inv (ring_init v)"
  by (simp add: ring_inv_def ring_init_def)

lemma ring_inv_add_node: "ring_inv R \<Longrightarrow> ring_inv (add_node sid w R)"
  by (simp add: ring_inv_def add_node_def Let_def sorted_add_node_loop)

lemma ring_inv_remove_node: "ring_inv R \<Longrightarrow> ring_inv (remove_node sid R)"
  by (simp add: ring_inv_def remove_node_def remove_loop_filter sorted_wrt_map sorted_wrt_filter)
  
lemma ring_inv_clear: "ring_inv (clear R)"
  by (simp add: ring_inv_def clear_def)

lemma lower_bound_Cons:
  assumes "sorted_wrt (<) (map fst xs)" and "lower_bound h xs = e # rest"
  shows "e \<in> set xs \<and> h \<le> fst e \<and> (\<forall>e' \<in> set xs. h \<le> fst e' \<longrightarrow> fst e \<le> fst e')"
  using assms
proof (induction xs)
  case Nil
  then show ?case by (simp add: lower_bound_def)
next
  case (Cons x xs)
  show ?case
  proof (cases "fst x < h")
    case True
    with Cons.prems have "lower_bound h xs = e # rest" and "sorted_wrt (<) (map fst xs)"
      by (simp_all add: lower_bound_def)
    with Cons.IH have "e \<in> set xs \<and> h \<le> fst e \<and> (\<forall>e' \<in> set xs. h \<le> fst e' \<longrightarrow> fst e \<le> fst e')"
      by simp
    with True show ?thesis by auto
  next
    case False
    with Cons.prems have "e = x" by (simp add: lower_bound_def)
    with False Cons.prems(1) show ?thesis by (auto simp: less_imp_le)
  qed
qed

lemma lower_bound_Nil: "lower_bound h xs = [] \<Longrightarrow> \<forall>e \<in> set xs. fst e < h"
  by (simp add: lower_bound_def dropWhile_eq_Nil_conv)

lemma map_of_sorted:
  fixes xs :: ring_map
  assumes "sorted_wrt (<) (map fst xs)" and "e \<in> set xs"
  shows "map_of xs (fst e) = Some (snd e)"
proof -
  from assms(1) have "distinct (map fst xs)"
    by (simp add: strict_sorted_iff)
  with assms(2) show ?thesis by simp
qed

lemma get_server_refines:
  assumes inv: "ring_inv R"
  shows "get_server R t = spec_lookup (hash_tuple t) (map_of (ring R))"
proof (cases "ring R = []")
  case True
  then show ?thesis by (simp add: get_server_def spec_lookup_def)
next
  case nonempty: False
  define h where "h = hash_tuple t"
  define m where "m = map_of (ring R)"
  from inv have srt: "sorted_wrt (<) (map fst (ring R))" by (simp add: ring_inv_def)
  have dom: "dom m = fst ` set (ring R)" by (simp add: m_def dom_map_of_conv_image_fst)
  have ne: "dom m \<noteq> {}" using nonempty by (simp add: dom)
  have fin: "finite (dom m)" by (simp add: dom)
  show ?thesis
  proof (cases "lower_bound h (ring R)")
    case lbNil: Nil
    then have all: "\<forall>e \<in> set (ring R). fst e < h" by (rule lower_bound_Nil)
    then have none: "\<not> (\<exists>k \<in> dom m. h \<le> k)" by (auto simp: dom)
    define x where "x = hd (ring R)"
    have x_in: "x \<in> set (ring R)" using nonempty by (simp add: x_def)
    from srt nonempty have "\<forall>k \<in> dom m. fst x \<le> k"
      by (cases "ring R") (auto simp: dom x_def less_imp_le)
    moreover have "fst x \<in> dom m" using x_in by (simp add: dom)
    ultimately have "Min (dom m) = fst x" using fin by (intro Min_eqI) auto
    moreover have "m (fst x) = Some (snd x)"
      unfolding m_def using srt x_in by (rule map_of_sorted)
    ultimately have "spec_lookup h m = Some (snd x)"
      using none ne by (simp add: spec_lookup_def)
    moreover have "get_server R t = Some (snd x)"
      using nonempty lbNil by (simp add: get_server_def h_def x_def Let_def)
    ultimately show ?thesis by (simp add: h_def m_def)
  next
    case lbCons: (Cons e rest)
    from lower_bound_Cons [OF srt lbCons]
    have e: "e \<in> set (ring R)" "h \<le> fst e" "\<forall>e' \<in> set (ring R). h \<le> fst e' \<longrightarrow> fst e \<le> fst e'"
      by simp_all
    then have ex: "\<exists>k \<in> dom m. h \<le> k" by (auto simp: dom)
    have "Min {k \<in> dom m. h \<le> k} = fst e"
      using e fin by (intro Min_eqI) (auto simp: dom)
    moreover have "m (fst e) = Some (snd e)"
      unfolding m_def using srt e(1) by (rule map_of_sorted)
    ultimately have "spec_lookup h m = Some (snd e)"
      using ex ne by (simp add: spec_lookup_def)
    moreover have "get_server R t = Some (snd e)"
      using nonempty lbCons by (simp add: get_server_def h_def Let_def)
    ultimately show ?thesis by (simp add: h_def m_def)
  qed
qed

lemma dropWhile_filter_Cons:
  "dropWhile P xs = e # rest \<Longrightarrow> Q e \<Longrightarrow> dropWhile P (filter Q xs) = e # filter Q rest"
  by (induction xs) (auto split: if_splits)

lemma dropWhile_filter_Nil: "dropWhile P xs = [] \<Longrightarrow> dropWhile P (filter Q xs) = []"
  by (induction xs) (auto split: if_splits)

lemma ring_inv_step: "ring_inv R \<Longrightarrow> ring_inv (ring_step op R)"
  by (cases op) (simp_all add: ring_inv_add_node ring_inv_remove_node ring_inv_clear)

lemma ring_inv_run: "ring_inv R \<Longrightarrow> ring_inv (ring_run ops R)"
  by (induction ops arbitrary: R) (simp_all add: ring_inv_step)

text \<open>
  C1. On every ring state, that is after every sequence of \<open>add_node\<close>, \<open>remove_node\<close>
  and \<open>clear\<close> calls on a freshly constructed ring, and for every five-tuple,
  \<open>get_server\<close> returns what the specified lookup returns at \<open>h = hash_tuple tuple\<close> on
  the ring seen as a map: the id at the least key not below \<open>h\<close>, else the id at the least
  key of all. It fails if and only if the ring has no entry.
\<close>

theorem get_server_lookup:
  "get_server (ring_run ops (ring_init v)) t =
     spec_lookup (hash_tuple t) (map_of (ring (ring_run ops (ring_init v)))) \<and>
   (get_server (ring_run ops (ring_init v)) t = None \<longleftrightarrow>
      node_count (ring_run ops (ring_init v)) = 0)"
proof
  have "ring_inv (ring_run ops (ring_init v))"
    by (rule ring_inv_run) (rule ring_inv_init)
  then show "get_server (ring_run ops (ring_init v)) t =
     spec_lookup (hash_tuple t) (map_of (ring (ring_run ops (ring_init v))))"
    by (rule get_server_refines)
next
  show "get_server (ring_run ops (ring_init v)) t = None \<longleftrightarrow>
      node_count (ring_run ops (ring_init v)) = 0"
    by (simp add: get_server_def node_count_def Let_def)
qed

theorem get_server_lookup_witness:
  "spec_lookup (hash_tuple (FiveTuple_init 0x01020304 0x05060708 80 8080 6 (0, 0, 0)))
     (map_of (ring (ring_run [AddNode 1 100, AddNode 2 100, AddNode 3 100] (ring_init 3)))) =
   Some 2 \<and>
   spec_lookup (hash_tuple (FiveTuple_init 0 0 0 0 0 (0, 0, 0)))
     (map_of (ring (ring_run [] (ring_init 150)))) = None"
proof -
  have a: "get_server (ring_run [AddNode 1 100, AddNode 2 100, AddNode 3 100] (ring_init 3))
             (FiveTuple_init 0x01020304 0x05060708 80 8080 6 (0, 0, 0)) = Some 2"
    by code_simp
  have b: "get_server (ring_run [] (ring_init 150)) (FiveTuple_init 0 0 0 0 0 (0, 0, 0)) = None"
    by code_simp
  from a b
    get_server_lookup [of "[AddNode 1 100, AddNode 2 100, AddNode 3 100]" 3
      "FiveTuple_init 0x01020304 0x05060708 80 8080 6 (0, 0, 0)"]
    get_server_lookup [of "[]" 150 "FiveTuple_init 0 0 0 0 0 (0, 0, 0)"]
  show ?thesis
    by metis
qed

text \<open>
  C2. Whenever \<open>get_server\<close> maps a tuple to the id \<open>X\<close>, it still maps the tuple to \<open>X\<close>
  after \<open>remove_node Y\<close> for any other id \<open>Y\<close>.
\<close>

theorem remove_node_keeps:
  assumes "get_server R t = Some X" and "Y \<noteq> X"
  shows "get_server (remove_node Y R) t = Some X"
proof -
  define h where "h = hash_tuple t"
  define Q where "Q = (\<lambda>e :: u32 \<times> u32. snd e \<noteq> Y)"
  have rm: "ring (remove_node Y R) = filter Q (ring R)"
    by (simp add: remove_node_def remove_loop_filter Q_def)
  from assms(1) obtain x xs where Cons: "ring R = x # xs"
    by (cases "ring R") (simp_all add: get_server_def)
  show ?thesis
  proof (cases "lower_bound h (ring R)")
    case Nil
    with assms(1) Cons have X: "snd x = X"
      by (simp add: get_server_def h_def Let_def)
    with assms(2) have "Q x" by (simp add: Q_def)
    with Cons have "filter Q (ring R) = x # filter Q xs" by simp
    moreover from Nil have "lower_bound h (filter Q (ring R)) = []"
      unfolding lower_bound_def by (rule dropWhile_filter_Nil)
    ultimately show ?thesis using X
      by (simp add: get_server_def rm h_def [symmetric] Let_def)
  next
    case lb: (Cons e rest)
    with assms(1) Cons have X: "snd e = X"
      by (simp add: get_server_def h_def Let_def)
    with assms(2) have "Q e" by (simp add: Q_def)
    with lb have lb': "lower_bound h (filter Q (ring R)) = e # filter Q rest"
      unfolding lower_bound_def by (intro dropWhile_filter_Cons)
    then have "filter Q (ring R) \<noteq> []" by (auto simp: lower_bound_def)
    with lb' X show ?thesis
      by (simp add: get_server_def rm h_def [symmetric] Let_def)
  qed
qed

theorem remove_node_keeps_witness:
  "get_server (ring_run [AddNode 1 100, AddNode 2 100, AddNode 3 100] (ring_init 3))
     (FiveTuple_init 0x01020304 0x05060708 80 8080 6 (0, 0, 0)) = Some 2 \<and>
   (1 :: u32) \<noteq> 2 \<and>
   get_server (remove_node 1 (ring_run [AddNode 1 100, AddNode 2 100, AddNode 3 100] (ring_init 3)))
     (FiveTuple_init 0x01020304 0x05060708 80 8080 6 (0, 0, 0)) = Some 2"
proof -
  have a: "get_server (ring_run [AddNode 1 100, AddNode 2 100, AddNode 3 100] (ring_init 3))
             (FiveTuple_init 0x01020304 0x05060708 80 8080 6 (0, 0, 0)) = Some 2"
    by code_simp
  have b: "(1 :: u32) \<noteq> 2"
    by simp
  from a b remove_node_keeps [OF a b] show ?thesis
    by simp
qed

section \<open>The backend registry\<close>

lemma hash_ring_set_status: "hash_ring (set_status sid st M) = hash_ring M"
  by (simp add: set_status_def split: option.split)

lemma servers_set_status:
  "servers (set_status sid st M) sid = map_option (\<lambda>rs. rs\<lparr>status := st\<rparr>) (servers M sid)"
  by (simp add: set_status_def split: option.split)

text \<open>
  C9. \<open>select_server\<close> returns no backend exactly when the ring lookup fails, or the id
  the ring chose is not in the server table, or the backend stored under it has a status
  other than \<open>UP\<close>; when the lookup yields an id whose backend is \<open>UP\<close> it returns that
  backend. After \<open>set_status id DOWN\<close> every tuple that the ring maps to \<open>id\<close> gets no
  backend.
\<close>

theorem select_server_result:
  "(select_server M t = None \<longleftrightarrow>
      get_server (hash_ring M) t = None \<or>
      (\<exists>sid. get_server (hash_ring M) t = Some sid \<and>
         (servers M sid = None \<or> (\<exists>rs. servers M sid = Some rs \<and> status rs \<noteq> UP)))) \<and>
   (\<forall>sid rs. get_server (hash_ring M) t = Some sid \<and> servers M sid = Some rs \<and> status rs = UP
      \<longrightarrow> select_server M t = Some rs) \<and>
   (\<forall>sid. get_server (hash_ring M) t = Some sid
      \<longrightarrow> select_server (set_status sid DOWN M) t = None)"
proof (intro conjI allI impI)
  show "select_server M t = None \<longleftrightarrow>
      get_server (hash_ring M) t = None \<or>
      (\<exists>sid. get_server (hash_ring M) t = Some sid \<and>
         (servers M sid = None \<or> (\<exists>rs. servers M sid = Some rs \<and> status rs \<noteq> UP)))"
    by (auto simp: select_server_def is_available_def split: option.splits if_splits)
next
  fix sid rs
  assume "get_server (hash_ring M) t = Some sid \<and> servers M sid = Some rs \<and> status rs = UP"
  then show "select_server M t = Some rs"
    by (simp add: select_server_def is_available_def)
next
  fix sid
  assume sel: "get_server (hash_ring M) t = Some sid"
  show "select_server (set_status sid DOWN M) t = None"
  proof (cases "servers M sid")
    case None
    with sel show ?thesis
      by (simp add: select_server_def hash_ring_set_status servers_set_status)
  next
    case (Some rs)
    with sel show ?thesis
      by (simp add: select_server_def hash_ring_set_status servers_set_status is_available_def)
  qed
qed

theorem select_server_result_witness:
  "get_server (hash_ring (add_server backend2 (add_server backend1 RealServerManager_init))) tuple_T
     = Some 2 \<and>
   select_server (add_server backend2 (add_server backend1 RealServerManager_init)) tuple_T
     = Some backend2 \<and>
   select_server (set_status 2 DOWN (add_server backend2 (add_server backend1 RealServerManager_init)))
     tuple_T = None"
proof -
  define M where "M = add_server backend2 (add_server backend1 RealServerManager_init)"
  have a: "get_server (hash_ring M) tuple_T = Some 2"
    unfolding M_def by code_simp
  have b: "servers M 2 = Some backend2"
    unfolding M_def by (simp add: add_server_def backend2_def)
  have c: "status backend2 = UP"
    by (simp add: backend2_def)
  from a b c select_server_result [of M tuple_T] show ?thesis
    unfolding M_def by blast
qed

section \<open>The session table\<close>

text \<open>
  C10. For a tuple that has no entry in the session table, \<open>update_stats\<close> returns the
  manager as it was: the same entries with the same sessions, the same counters, and still
  no entry for the tuple.
\<close>

theorem update_stats_absent:
  "sessions_find t (sessions M) = None \<Longrightarrow>
     update_stats t n now M = M \<and> sessions_find t (sessions (update_stats t n now M)) = None"
  by (simp add: update_stats_def)

theorem update_stats_absent_witness:
  "sessions_find (FiveTuple_init 1 2 3 5 6 (0, 0, 0))
     (sessions (create (FiveTuple_init 1 2 3 4 6 (0, 0, 0)) 1 1000 SessionManager_init)) = None \<and>
   update_stats (FiveTuple_init 1 2 3 5 6 (0, 0, 0)) 64 2000
     (create (FiveTuple_init 1 2 3 4 6 (0, 0, 0)) 1 1000 SessionManager_init) =
   create (FiveTuple_init 1 2 3 4 6 (0, 0, 0)) 1 1000 SessionManager_init"
proof -
  have a: "sessions_find (FiveTuple_init 1 2 3 5 6 (0, 0, 0))
     (sessions (create (FiveTuple_init 1 2 3 4 6 (0, 0, 0)) 1 1000 SessionManager_init)) = None"
    by code_simp
  from a update_stats_absent [OF a, of 64 2000] show ?thesis
    by simp
qed

text \<open>
  The counter and the map stay in step under \<open>lookup\<close>, \<open>update_stats\<close>, \<open>remove\<close> and
  \<open>cleanup\<close>, and under \<open>create\<close> for a tuple that has no entry yet.
\<close>

lemma length_sessions_assign:
  "length (sessions_assign t s r) = (if sessions_find t r = None then Suc (length r) else length r)"
  by (induction r) auto

lemma sessions_find_Some_length: "sessions_find t r = Some s \<Longrightarrow> 0 < length r"
  by (cases r) auto

lemma length_sessions_erase:
  "length (sessions_erase t r) = (if sessions_find t r = None then length r else length r - 1)"
  by (induction r) (auto dest: sessions_find_Some_length)

lemma cleanup_loop_counts:
  "cleanup_loop timeout now r removed active = (kept, removed', active') \<Longrightarrow>
     active' + of_nat (length r) = active + of_nat (length kept)"
proof (induction r arbitrary: removed active kept removed' active')
  case Nil
  then show ?case by simp
next
  case (Cons e r)
  show ?case
  proof (cases "is_expired timeout now (snd e)")
    case True
    with Cons.prems have "cleanup_loop timeout now r (removed + 1) (active - 1) = (kept, removed', active')"
      by simp
    from Cons.IH [OF this]
    have "active' + of_nat (length r) = active - 1 + of_nat (length kept)" .
    then have "active' + of_nat (length r) + 1 = active - 1 + of_nat (length kept) + 1"
      by (simp only:)
    then show ?thesis
      by (simp add: algebra_simps)
  next
    case False
    with Cons.prems obtain kept0 where
      rec: "cleanup_loop timeout now r removed active = (kept0, removed', active')"
      and kept: "kept = e # kept0"
      by (auto split: prod.splits)
    from Cons.IH [OF rec] kept show ?thesis
      by simp
  qed
qed

lemma session_inv_init: "session_inv SessionManager_init"
  by (simp add: session_inv_def SessionManager_init_def Statistics_zero_def)

lemma session_inv_create_new:
  "session_inv M \<Longrightarrow> sessions_find t (sessions M) = None \<Longrightarrow> session_inv (create t sid now M)"
  by (simp add: session_inv_def create_def length_sessions_assign)

lemma session_inv_lookup: "session_inv M \<Longrightarrow> session_inv (snd (lookup t now M))"
  by (simp add: session_inv_def lookup_def length_sessions_assign Let_def split: option.split)

lemma session_inv_update_stats: "session_inv M \<Longrightarrow> session_inv (update_stats t n now M)"
  by (simp add: session_inv_def update_stats_def length_sessions_assign Let_def split: option.split)

lemma of_nat_length_pred:
  "r \<noteq> [] \<Longrightarrow> (of_nat (length r - Suc 0) :: u64) = of_nat (length r) - 1"
  by (cases r) simp_all

lemma session_inv_remove: "session_inv M \<Longrightarrow> session_inv (remove t M)"
proof (cases "sessions_find t (sessions M)")
  case None
  assume "session_inv M"
  with None show ?thesis
    by (simp add: session_inv_def remove_def length_sessions_erase)
next
  case (Some s)
  assume "session_inv M"
  with Some sessions_find_Some_length [OF Some] show ?thesis
    by (simp add: session_inv_def remove_def length_sessions_erase of_nat_length_pred)
qed

lemma session_inv_cleanup: "session_inv M \<Longrightarrow> session_inv (snd (cleanup now M))"
proof -
  assume inv: "session_inv M"
  obtain kept removed active where
    loop: "cleanup_loop (ucast (timeout_sec M)) now (sessions M) 0 (active_sessions (stats M)) =
             (kept, removed, active)"
    by (cases "cleanup_loop (ucast (timeout_sec M)) now (sessions M) 0 (active_sessions (stats M))")
  from cleanup_loop_counts [OF loop] inv have "active = of_nat (length kept)"
    by (simp add: session_inv_def)
  with loop show ?thesis
    by (simp add: cleanup_def session_inv_def)
qed

text \<open>
  C3, at the input where the code leaves it. \<open>create\<close> for a tuple that already has an
  entry overwrites the entry and still steps \<open>active_sessions\<close>: after two \<open>create\<close>
  calls for one tuple on the empty table the counter is 2 and the map has one entry.
\<close>

theorem create_twice_active_sessions:
  "active_sessions (get_stats
     (create (FiveTuple_init 1 2 3 4 6 (0, 0, 0)) 2 2000
       (create (FiveTuple_init 1 2 3 4 6 (0, 0, 0)) 1 1000 SessionManager_init))) = 2 \<and>
   active_count
     (create (FiveTuple_init 1 2 3 4 6 (0, 0, 0)) 2 2000
       (create (FiveTuple_init 1 2 3 4 6 (0, 0, 0)) 1 1000 SessionManager_init)) = 1"
  by code_simp

section \<open>The hash of a five-tuple\<close>

text \<open>
  C8, at the input where the code leaves it. Two \<open>FiveTuple\<close> objects with the same five
  members, one in memory whose padding bytes are zero and one whose first padding byte is
  1, are equal under \<open>operator==\<close> and have different \<open>hash_tuple\<close> values.
\<close>

theorem hash_tuple_reads_padding:
  "tuple_eq (FiveTuple_init 0x01020304 0x05060708 80 8080 6 (0, 0, 0))
            (FiveTuple_init 0x01020304 0x05060708 80 8080 6 (1, 0, 0)) \<and>
   hash_tuple (FiveTuple_init 0x01020304 0x05060708 80 8080 6 (0, 0, 0)) = 1298114883 \<and>
   hash_tuple (FiveTuple_init 0x01020304 0x05060708 80 8080 6 (1, 0, 0)) = 4002607011"
  by code_simp

section \<open>The parser\<close>

lemma parse_short: "length pkt < 14 \<Longrightarrow> parse pkt meta = (False, meta)"
  by (simp add: parse_def HEADER_SIZE_def)

lemma parse_not_ipv4:
  "14 \<le> length pkt \<Longrightarrow> \<not> is_ipv4 pkt \<Longrightarrow>
     parse pkt meta =
       (True, meta\<lparr>dst_mac := take 6 pkt, src_mac := take 6 (drop 6 pkt),
                  ether_type := get_ether_type pkt, l2_offset := 0, l3_offset := 14\<rparr>)"
  by (simp add: parse_def HEADER_SIZE_def)

lemma parse_ipv4_fst: "is_ipv4 pkt \<Longrightarrow> fst (parse pkt meta) \<longleftrightarrow> 34 \<le> length pkt"
  by (auto simp: parse_def HEADER_SIZE_def Let_def)

text \<open>
  C4 as stated fails in both directions. \<open>frame_ihl15\<close> is accepted although its 60 bytes
  are fewer than the \<open>14 + ihl * 4 = 74\<close> its header declares; \<open>frame_ihl4\<close> is rejected
  although its 30 bytes hold the 14 + 16 bytes its headers declare.
\<close>

theorem parse_ihl_counterexample:
  "fst (parse frame_ihl15 PacketMeta_zero) \<and> is_ipv4 frame_ihl15 \<and>
   \<not> 14 + ip_get_header_len frame_ihl15 14 \<le> length frame_ihl15 \<and>
   \<not> fst (parse frame_ihl4 PacketMeta_zero) \<and> is_ipv4 frame_ihl4 \<and>
   14 \<le> length frame_ihl4 \<and>
   14 + ip_get_header_len frame_ihl4 14 \<le> length frame_ihl4 \<and>
   header_lengths_fit frame_ihl4"
  by code_simp

text \<open>
  C4, amended. \<open>parse\<close> fails on every frame shorter than 14 bytes and on every IPv4
  frame shorter than 34 bytes (the Ethernet header and the 20 bytes of \<open>IPv4Header\<close>,
  whatever \<open>ihl\<close> says). It succeeds on every frame of at least 14 bytes that is not
  IPv4, with both MAC addresses, the EtherType and the two offsets of \<open>meta\<close> set and the
  rest of \<open>meta\<close> untouched; and it succeeds on every IPv4 frame of at least 34 bytes whose
  declared header lengths fit into the frame.
\<close>

theorem parse_success:
  "(length pkt < 14 \<longrightarrow> \<not> fst (parse pkt meta)) \<and>
   (is_ipv4 pkt \<and> length pkt < 34 \<longrightarrow> \<not> fst (parse pkt meta)) \<and>
   (14 \<le> length pkt \<and> \<not> is_ipv4 pkt \<longrightarrow>
      parse pkt meta =
        (True, meta\<lparr>dst_mac := take 6 pkt, src_mac := take 6 (drop 6 pkt),
                   ether_type := get_ether_type pkt, l2_offset := 0, l3_offset := 14\<rparr>)) \<and>
   (is_ipv4 pkt \<and> 34 \<le> length pkt \<and> header_lengths_fit pkt \<longrightarrow> fst (parse pkt meta))"
  by (simp add: parse_short parse_not_ipv4 parse_ipv4_fst)

theorem parse_success_witness:
  "fst (parse frame_tcp PacketMeta_zero) \<and>
   parse frame_arp PacketMeta_zero =
     (True, PacketMeta_zero\<lparr>dst_mac := [0xFF, 0xFF, 0xFF, 0xFF, 0xFF, 0xFF],
                            src_mac := [0xAA, 0xBB, 0xCC, 0xDD, 0xEE, 0xFF],
                            ether_type := 0x0806, l2_offset := 0, l3_offset := 14\<rparr>) \<and>
   \<not> fst (parse (take 13 frame_arp) PacketMeta_zero) \<and>
   \<not> fst (parse (take 33 frame_tcp) PacketMeta_zero)"
proof -
  have a: "is_ipv4 frame_tcp \<and> 34 \<le> length frame_tcp \<and> header_lengths_fit frame_tcp"
    by code_simp
  have b: "14 \<le> length frame_arp \<and> \<not> is_ipv4 frame_arp"
    by code_simp
  have c: "length (take 13 frame_arp) < 14"
    by code_simp
  have d: "is_ipv4 (take 33 frame_tcp) \<and> length (take 33 frame_tcp) < 34"
    by code_simp
  have e: "take 6 frame_arp = [0xFF, 0xFF, 0xFF, 0xFF, 0xFF, 0xFF]"
    "take 6 (drop 6 frame_arp) = [0xAA, 0xBB, 0xCC, 0xDD, 0xEE, 0xFF]"
    "get_ether_type frame_arp = 0x0806"
    by code_simp+
  from a b c d
    parse_success [of frame_tcp PacketMeta_zero]
    parse_success [of frame_arp PacketMeta_zero]
    parse_success [of "take 13 frame_arp" PacketMeta_zero]
    parse_success [of "take 33 frame_tcp" PacketMeta_zero]
  show ?thesis
    unfolding e by blast
qed

text \<open>
  On an IPv4 frame shorter than 65536 bytes whose declared header lengths fit into the
  frame, the offsets that \<open>parse\<close> reports are ordered and end within \<open>total_len\<close>.
\<close>

lemma unat_of_nat_u16: "n < 65536 \<Longrightarrow> unat (of_nat n :: u16) = n"
  by (simp add: unat_of_nat)

lemma ip_get_header_len_le: "ip_get_header_len pkt off \<le> 60"
proof -
  have "(pkt ! off) AND 0x0F \<le> 0x0F"
    by (rule word_and_le1)
  then have "unat ((pkt ! off) AND 0x0F) \<le> 15"
    by (simp add: word_le_nat_alt)
  then show ?thesis
    by (simp add: ip_get_header_len_def get_ihl_def)
qed

lemma tcp_get_header_len_le: "tcp_get_header_len pkt off \<le> 60"
proof -
  have "drop_bit 4 (pkt ! (off + 12)) AND 0x0F \<le> 0x0F"
    by (rule word_and_le1)
  then have "unat (drop_bit 4 (pkt ! (off + 12)) AND 0x0F) \<le> 15"
    by (simp add: word_le_nat_alt)
  then show ?thesis
    by (simp add: tcp_get_header_len_def)
qed

lemma parse_offsets_ordered:
  assumes ip: "is_ipv4 pkt" and len: "34 \<le> length pkt" "length pkt < 65536"
    and fit: "header_lengths_fit pkt"
  shows "l2_offset (snd (parse pkt meta)) \<le> l3_offset (snd (parse pkt meta)) \<and>
         l3_offset (snd (parse pkt meta)) \<le> l4_offset (snd (parse pkt meta)) \<and>
         l4_offset (snd (parse pkt meta)) \<le> payload_offset (snd (parse pkt meta)) \<and>
         payload_offset (snd (parse pkt meta)) \<le> total_len (snd (parse pkt meta))"
proof -
  define hl where "hl = ip_get_header_len pkt 14"
  define thl where "thl = tcp_get_header_len pkt (14 + hl)"
  have hl: "hl \<le> 60" and thl: "thl \<le> 60"
    by (simp_all add: hl_def thl_def ip_get_header_len_le tcp_get_header_len_le)
  from fit have f1: "14 + hl \<le> length pkt"
    and f2: "is_tcp pkt 14 \<Longrightarrow> 14 + hl + 20 \<le> length pkt \<Longrightarrow> 14 + hl + thl \<le> length pkt"
    by (simp_all add: header_lengths_fit_def HEADER_SIZE_def Let_def hl_def thl_def)
  have l4: "unat (of_nat (14 + hl) :: u16) = 14 + hl"
    using hl by (intro unat_of_nat_u16) simp
  have tl: "unat (of_nat (length pkt) :: u16) = length pkt"
    using len by (intro unat_of_nat_u16) simp
  have po_tcp: "unat (of_nat (14 + hl + thl) :: u16) = 14 + hl + thl"
    using hl thl by (intro unat_of_nat_u16) simp
  have po_udp: "unat (of_nat (14 + hl + 8) :: u16) = 14 + hl + 8"
    using hl by (intro unat_of_nat_u16) simp
  have l3: "unat (of_nat 14 :: u16) = 14"
    by simp
  show ?thesis
    using ip len f1 f2 hl thl l4 tl po_tcp po_udp
    by (auto simp: parse_def HEADER_SIZE_def Let_def word_le_nat_alt
        simp flip: hl_def thl_def)
qed

text \<open>
  C5, at the input where the code leaves it. \<open>parse\<close> accepts the IPv4 frame
  \<open>frame_ihl15\<close> of 60 bytes and reports \<open>l4_offset = payload_offset = 74\<close> with
  \<open>total_len = 60\<close>; \<open>payload_len = len - payload_offset\<close> has wrapped to 65522.
\<close>

theorem parse_offsets_past_end:
  "fst (parse frame_ihl15 PacketMeta_zero) \<and> is_ipv4 frame_ihl15 \<and>
   l3_offset (snd (parse frame_ihl15 PacketMeta_zero)) = 14 \<and>
   l4_offset (snd (parse frame_ihl15 PacketMeta_zero)) = 74 \<and>
   payload_offset (snd (parse frame_ihl15 PacketMeta_zero)) = 74 \<and>
   total_len (snd (parse frame_ihl15 PacketMeta_zero)) = 60 \<and>
   payload_len (snd (parse frame_ihl15 PacketMeta_zero)) = 65522 \<and>
   \<not> payload_offset (snd (parse frame_ihl15 PacketMeta_zero))
       \<le> total_len (snd (parse frame_ihl15 PacketMeta_zero))"
  by code_simp

section \<open>The SPSC ring buffer\<close>

lemma and_size_mask: "Size = 2 ^ k \<Longrightarrow> (n :: nat) AND (Size - Suc 0) = n mod Size"
  by (simp add: take_bit_eq_mod [symmetric] take_bit_eq_mask mask_eq_exp_minus_1)

lemma mod_wrap: "(x :: nat) < 2 * S \<Longrightarrow> x mod S = (if x < S then x else x - S)"
  by (simp add: le_mod_geq)

lemma mod_wrap_add: "(a :: nat) < S \<Longrightarrow> b < S \<Longrightarrow> (a + b) mod S = (if a + b < S then a + b else a + b - S)"
  by (rule mod_wrap) simp

lemma count_cases:
  fixes h t S :: nat
  assumes "h < S" and "t < S"
  shows "(t + S - h) mod S = (if h \<le> t then t - h else t + S - h)"
proof (cases "h \<le> t")
  case True
  then have "t + S - h = (t - h) + S" by simp
  then have "(t + S - h) mod S = (t - h) mod S" by (simp only: mod_add_self2)
  with True assms show ?thesis by simp
next
  case False
  with assms have "t + S - h < S" by simp
  with False show ?thesis by simp
qed

lemma next_cases: "(t :: nat) < S \<Longrightarrow> Suc t mod S = (if Suc t = S then 0 else Suc t)"
  by (simp add: mod_wrap)

lemma slot_last: "(h :: nat) < S \<Longrightarrow> t < S \<Longrightarrow> (h + (t + S - h) mod S) mod S = t"
  by (simp add: count_cases mod_wrap)

lemma slot_other: "(h :: nat) < S \<Longrightarrow> t < S \<Longrightarrow> i < (t + S - h) mod S \<Longrightarrow> (h + i) mod S \<noteq> t"
  by (auto simp: count_cases mod_wrap split: if_splits)

lemma count_push:
  "(h :: nat) < S \<Longrightarrow> t < S \<Longrightarrow> (t + 1) mod S \<noteq> h \<Longrightarrow>
     ((t + 1) mod S + S - h) mod S = Suc ((t + S - h) mod S)"
  by (auto simp: count_cases next_cases split: if_splits)

lemma count_full: "(h :: nat) < S \<Longrightarrow> t < S \<Longrightarrow> (t + 1) mod S = h \<longleftrightarrow> (t + S - h) mod S = S - 1"
  by (auto simp: count_cases next_cases split: if_splits)

lemma count_empty: "(h :: nat) < S \<Longrightarrow> t < S \<Longrightarrow> h = t \<longleftrightarrow> (t + S - h) mod S = 0"
  by (auto simp: count_cases split: if_splits)

lemma count_pop:
  "(h :: nat) < S \<Longrightarrow> t < S \<Longrightarrow> h \<noteq> t \<Longrightarrow>
     (t + S - h) mod S = Suc ((t + S - (h + 1) mod S) mod S)"
  by (auto simp: count_cases next_cases split: if_splits)

lemma length_pending: "length (pending Size q) = (tail q + Size - head q) mod Size"
  by (simp add: pending_def)

lemma size_spsc_pending:
  assumes "Size = 2 ^ k"
  shows "size_spsc Size q = length (pending Size q)"
  by (simp add: size_spsc_def and_size_mask [OF assms] length_pending)

lemma push_full:
  assumes "Size = 2 ^ k" and "spsc_inv Size q" and "length (pending Size q) = Size - 1"
  shows "push Size x q = (False, q)"
proof -
  from assms(2) have "head q < Size" "tail q < Size" by (simp_all add: spsc_inv_def)
  with assms(3) have "(tail q + 1) mod Size = head q"
    using count_full [of "head q" Size "tail q"] by (simp add: length_pending)
  then show ?thesis
    by (simp add: push_def and_size_mask [OF assms(1)])
qed

lemma push_not_full:
  assumes "Size = 2 ^ k" and "spsc_inv Size q" and "length (pending Size q) \<noteq> Size - 1"
  shows "\<exists>q'. push Size x q = (True, q') \<and> spsc_inv Size q' \<and> pending Size q' = pending Size q @ [x]"
proof -
  from assms(2) have h: "head q < Size" and t: "tail q < Size" and l: "length (buffer q) = Size"
    by (simp_all add: spsc_inv_def)
  from assms(3) h t have nf: "(tail q + 1) mod Size \<noteq> head q"
    using count_full [of "head q" Size "tail q"] by (simp add: length_pending)
  define q' where "q' = q\<lparr>buffer := (buffer q)[tail q := x], tail := (tail q + 1) mod Size\<rparr>"
  from nf have p: "push Size x q = (True, q')"
    by (simp add: push_def and_size_mask [OF assms(1)] q'_def Let_def)
  from h have "0 < Size" by simp
  with h l have inv: "spsc_inv Size q'"
    by (simp add: spsc_inv_def q'_def)
  have cnt: "(tail q' + Size - head q') mod Size = Suc ((tail q + Size - head q) mod Size)"
    using count_push [OF h t nf] by (simp add: q'_def)
  have old: "buffer q' ! ((head q + i) mod Size) = buffer q ! ((head q + i) mod Size)"
    if "i < (tail q + Size - head q) mod Size" for i
    using slot_other [OF h t that] by (simp add: q'_def)
  have new: "buffer q' ! ((head q + (tail q + Size - head q) mod Size) mod Size) = x"
    using t l by (simp add: slot_last [OF h t] q'_def)
  have "pending Size q' = pending Size q @ [x]"
    using old new by (simp add: pending_def cnt) (simp add: q'_def)
  with p inv show ?thesis by blast
qed

lemma pop_empty:
  assumes "spsc_inv Size q" and "pending Size q = []"
  shows "pop Size q = (None, q)"
proof -
  from assms(1) have "head q < Size" "tail q < Size" by (simp_all add: spsc_inv_def)
  moreover from assms(2) have "(tail q + Size - head q) mod Size = 0"
    using length_pending [of Size q] by simp
  ultimately have "head q = tail q"
    using count_empty [of "head q" Size "tail q"] by simp
  then show ?thesis
    by (simp add: pop_def)
qed

lemma pop_not_empty:
  assumes "Size = 2 ^ k" and "spsc_inv Size q" and "pending Size q \<noteq> []"
  shows "\<exists>y q'. pop Size q = (Some y, q') \<and> spsc_inv Size q' \<and> pending Size q = y # pending Size q'"
proof -
  from assms(2) have h: "head q < Size" and t: "tail q < Size" and l: "length (buffer q) = Size"
    by (simp_all add: spsc_inv_def)
  from assms(3) have "length (pending Size q) \<noteq> 0"
    by simp
  then have "(tail q + Size - head q) mod Size \<noteq> 0"
    unfolding length_pending .
  with h t have ne: "head q \<noteq> tail q"
    using count_empty [of "head q" Size "tail q"] by simp
  define q' where "q' = q\<lparr>head := (head q + 1) mod Size\<rparr>"
  from ne have p: "pop Size q = (Some (buffer q ! head q), q')"
    by (simp add: pop_def and_size_mask [OF assms(1)] q'_def Let_def)
  from h have "0 < Size" by simp
  with t l have inv: "spsc_inv Size q'"
    by (simp add: spsc_inv_def q'_def)
  define n where "n = (tail q + Size - (head q + 1) mod Size) mod Size"
  have cnt: "(tail q + Size - head q) mod Size = Suc n"
    unfolding n_def by (rule count_pop [OF h t ne])
  have pq': "pending Size q' = map (\<lambda>i. buffer q ! ((head q + Suc i) mod Size)) [0..<n]"
    unfolding pending_def q'_def n_def by (simp add: mod_add_left_eq)
  have "[0..<Suc n] = 0 # map Suc [0..<n]"
    by (simp add: upt_conv_Cons map_Suc_upt del: upt_Suc)
  then have "map (\<lambda>i. buffer q ! ((head q + i) mod Size)) [0..<Suc n] =
      buffer q ! head q # map (\<lambda>i. buffer q ! ((head q + Suc i) mod Size)) [0..<n]"
    using h by (simp add: comp_def del: upt_Suc)
  then have "pending Size q = buffer q ! head q # pending Size q'"
    unfolding pq' by (simp add: pending_def cnt del: upt_Suc)
  with p inv show ?thesis by blast
qed

lemma spsc_run_fifo:
  assumes "Size = 2 ^ k"
  shows "spsc_inv Size q \<Longrightarrow> spsc_run Size ops q = (evs, q') \<Longrightarrow>
     spsc_inv Size q' \<and> pending Size q @ pushed_values evs = popped_values evs @ pending Size q'"
proof (induction ops arbitrary: q evs)
  case Nil
  then show ?case by simp
next
  case (Cons op ops)
  obtain ev q1 where step: "spsc_step Size op q = (ev, q1)"
    by (cases "spsc_step Size op q")
  obtain evs1 where run: "spsc_run Size ops q1 = (evs1, q')" and evs: "evs = ev # evs1"
    using Cons.prems(2) step by (auto split: prod.splits)
  show ?case
  proof (cases op)
    case (Push x)
    show ?thesis
    proof (cases "length (pending Size q) = Size - 1")
      case True
      from push_full [OF assms Cons.prems(1) True, of x] step Push
      have "ev = PushFull x" "q1 = q" by (simp_all add: spsc_step_def)
      with Cons.IH [OF Cons.prems(1), of evs1] run evs show ?thesis by simp
    next
      case False
      from push_not_full [OF assms Cons.prems(1) False, of x] obtain q2
        where "push Size x q = (True, q2)" "spsc_inv Size q2"
          "pending Size q2 = pending Size q @ [x]" by blast
      with step Push have "ev = PushOk x" "q1 = q2" by (simp_all add: spsc_step_def)
      with Cons.IH [of q1 evs1] run evs \<open>spsc_inv Size q2\<close> \<open>pending Size q2 = pending Size q @ [x]\<close>
      show ?thesis by simp
    qed
  next
    case Pop
    show ?thesis
    proof (cases "pending Size q = []")
      case True
      from pop_empty [OF Cons.prems(1) True] step Pop
      have "ev = PopEmpty" "q1 = q" by (simp_all add: spsc_step_def)
      with Cons.IH [OF Cons.prems(1), of evs1] run evs show ?thesis by simp
    next
      case False
      from pop_not_empty [OF assms Cons.prems(1) False] obtain y q2
        where "pop Size q = (Some y, q2)" "spsc_inv Size q2"
          "pending Size q = y # pending Size q2" by blast
      with step Pop have "ev = PopOk y" "q1 = q2" by (simp_all add: spsc_step_def)
      with Cons.IH [of q1 evs1] run evs \<open>spsc_inv Size q2\<close> \<open>pending Size q = y # pending Size q2\<close>
      show ?thesis by simp
    qed
  qed
qed

lemma spsc_inv_init: "0 < Size \<Longrightarrow> spsc_inv Size (SPSCRingBuffer_init Size d)"
  by (simp add: spsc_inv_def SPSCRingBuffer_init_def)

lemma pending_init: "0 < Size \<Longrightarrow> pending Size (SPSCRingBuffer_init Size d) = []"
  by (simp add: pending_def SPSCRingBuffer_init_def)

text \<open>
  C7. For a buffer of size \<open>Size = 2 ^ k\<close>, \<open>k > 0\<close>, in any state \<open>q\<close> reached from the
  empty buffer by a sequential run of pushes and pops: when \<open>Size - 1\<close> items are pending
  (\<open>size\<close> equals \<open>capacity\<close>), \<open>push\<close> returns false and leaves the buffer as it is; when
  nothing is pending, \<open>pop\<close> returns false and leaves the buffer as it is; \<open>size\<close> is the
  number of pending items; and the values whose push succeeded are, in order, the values
  popped followed by the values still pending. With \<open>Size = 4\<close>: pushes of 1, 2, 3 succeed,
  the push of 4 fails, pops give 1, 2, 3, pushes of 5, 6, 7 succeed and pops give 5, 6, 7.
\<close>

theorem spsc_fifo:
  assumes "Size = 2 ^ k" and "0 < k"
    and "spsc_run Size ops (SPSCRingBuffer_init Size d) = (evs, q)"
  shows "(size_spsc Size q = capacity Size \<longrightarrow> push Size x q = (False, q)) \<and>
         (pending Size q = [] \<longrightarrow> pop Size q = (None, q)) \<and>
         size_spsc Size q = length (pending Size q) \<and>
         pushed_values evs = popped_values evs @ pending Size q \<and>
         spsc_run 4 [Push 1, Push 2, Push 3, Push 4, Pop, Pop, Pop,
                     Push 5, Push 6, Push 7, Pop, Pop, Pop] (SPSCRingBuffer_init 4 (0 :: int)) =
           ([PushOk 1, PushOk 2, PushOk 3, PushFull 4, PopOk 1, PopOk 2, PopOk 3,
             PushOk 5, PushOk 6, PushOk 7, PopOk 5, PopOk 6, PopOk 7],
            \<lparr>head = 2, tail = 2, buffer = [6, 7, 3, 5]\<rparr>)"
proof (intro conjI impI)
  from assms(1) have pos: "0 < Size"
    by simp
  from spsc_run_fifo [OF assms(1) spsc_inv_init [OF pos] assms(3)]
  have inv: "spsc_inv Size q"
    and fifo: "pending Size (SPSCRingBuffer_init Size d) @ pushed_values evs =
               popped_values evs @ pending Size q"
    by simp_all
  show sz: "size_spsc Size q = length (pending Size q)"
    by (rule size_spsc_pending [OF assms(1)])
  show "pushed_values evs = popped_values evs @ pending Size q"
    using fifo by (simp add: pending_init [OF pos])
  show "pop Size q = (None, q)" if "pending Size q = []"
    using inv that by (rule pop_empty)
  show "push Size x q = (False, q)" if "size_spsc Size q = capacity Size"
  proof -
    from that have "length (pending Size q) = Size - 1"
      by (simp add: sz capacity_def)
    with assms(1) inv show ?thesis
      by (rule push_full)
  qed
  show "spsc_run 4 [Push 1, Push 2, Push 3, Push 4, Pop, Pop, Pop,
                     Push 5, Push 6, Push 7, Pop, Pop, Pop] (SPSCRingBuffer_init 4 (0 :: int)) =
           ([PushOk 1, PushOk 2, PushOk 3, PushFull 4, PopOk 1, PopOk 2, PopOk 3,
             PushOk 5, PushOk 6, PushOk 7, PopOk 5, PopOk 6, PopOk 7],
            \<lparr>head = 2, tail = 2, buffer = [6, 7, 3, 5]\<rparr>)"
    by code_simp
qed

theorem spsc_fifo_witness:
  "spsc_run 4 [Push 1, Push 2, Push 3, Push 4] (SPSCRingBuffer_init 4 (0 :: int)) =
     ([PushOk 1, PushOk 2, PushOk 3, PushFull 4], \<lparr>head = 0, tail = 3, buffer = [1, 2, 3, 0]\<rparr>) \<and>
   size_spsc 4 \<lparr>head = 0, tail = 3, buffer = [1, 2, 3, 0 :: int]\<rparr> = capacity 4 \<and>
   push 4 9 \<lparr>head = 0, tail = 3, buffer = [1, 2, 3, 0 :: int]\<rparr> =
     (False, \<lparr>head = 0, tail = 3, buffer = [1, 2, 3, 0]\<rparr>) \<and>
   pending 4 \<lparr>head = 0, tail = 3, buffer = [1, 2, 3, 0 :: int]\<rparr> = [1, 2, 3]"
proof -
  have a: "(4 :: nat) = 2 ^ 2" and b: "(0 :: nat) < 2"
    by simp_all
  have c: "spsc_run 4 [Push 1, Push 2, Push 3, Push 4] (SPSCRingBuffer_init 4 (0 :: int)) =
     ([PushOk 1, PushOk 2, PushOk 3, PushFull 4], \<lparr>head = 0, tail = 3, buffer = [1, 2, 3, 0]\<rparr>)"
    by code_simp
  have d: "size_spsc 4 \<lparr>head = 0, tail = 3, buffer = [1, 2, 3, 0 :: int]\<rparr> = capacity 4"
    by code_simp
  from c d spsc_fifo [OF a b c, of 9] show ?thesis
    by simp
qed

section \<open>The checksum\<close>

lemma unat8_less: "unat (b :: u8) < 256"
  using unsigned_less [of b, where 'a = nat] by simp

lemma unat16_less: "unat (b :: u16) < 65536"
  using unsigned_less [of b, where 'a = nat] by simp

lemma unat32_less: "unat (b :: u32) < 4294967296"
  using unsigned_less [of b, where 'a = nat] by simp

lemma ucast_8_16_unat: "unat (ucast (b :: u8) :: u16) = unat b"
  using unat8_less [of b] by (simp add: unsigned_ucast_eq take_bit_nat_eq_self)

lemma ucast_8_32_unat: "unat (ucast (b :: u8) :: u32) = unat b"
  using unat8_less [of b] by (simp add: unsigned_ucast_eq take_bit_nat_eq_self)

lemma ucast_16_32_unat: "unat (ucast (b :: u16) :: u32) = unat b"
  using unat16_less [of b] by (simp add: unsigned_ucast_eq take_bit_nat_eq_self)

lemma push8_unat: "unat (push_bit 8 (ucast (b1 :: u8) :: u16)) = 256 * unat b1"
proof -
  have "push_bit 8 (ucast b1 :: u16) = ucast b1 * 256"
    by (simp add: push_bit_eq_mult)
  moreover have "unat (ucast b1 :: u16) * unat (256 :: u16) < 2 ^ LENGTH(16)"
    using unat8_less [of b1] by (simp add: ucast_8_16_unat)
  then have "unat ((ucast b1 :: u16) * 256) = unat (ucast b1 :: u16) * unat (256 :: u16)"
    by (rule unat_mult_lem [THEN iffD1])
  ultimately show ?thesis
    by (simp add: ucast_8_16_unat)
qed

lemma le16_unat: "unat (le16 b0 b1) = unat b0 + 256 * unat b1"
proof -
  have disj: "(ucast b0 :: u16) AND push_bit 8 (ucast b1) = 0"
    by (rule bit_eqI) (auto simp: bit_simps dest: bit_imp_le_length)
  have "le16 b0 b1 = ucast b0 + push_bit 8 (ucast b1)"
    unfolding le16_def using disj by (simp add: disjunctive_add_eq_or)
  then show ?thesis
    using ucast_8_16_unat [of b0] push8_unat [of b1] unat8_less [of b0] unat8_less [of b1]
    by (simp add: unat_add_lem [THEN iffD1])
qed

lemma le16_bytes: "le16 (ucast v) (ucast (drop_bit 8 v)) = (v :: u16)"
  unfolding le16_def by (rule bit_eqI) (auto simp: bit_simps)

lemma not16_unat: "unat (NOT (w :: u16)) = 65535 - unat w"
proof -
  have "NOT w = - 1 - w"
    by (simp add: not_eq_complement)
  moreover have "unat (- 1 - w) = unat (- 1 :: u16) - unat w"
    by (rule unat_sub) simp
  moreover have "unat (- 1 :: u16) = 65535"
    unfolding unsigned_minus_1_eq_mask by (simp add: mask_eq_exp_minus_1)
  ultimately show ?thesis
    by (simp only:)
qed

lemma ucast_not_32_16: "unat (ucast (NOT s :: u32) :: u16) = 65535 - unat (ucast s :: u16)"
proof -
  have "(ucast (NOT s) :: u16) = NOT (ucast s)"
    by (rule bit_eqI) (auto simp: bit_simps)
  then show ?thesis
    by (simp add: not16_unat)
qed

lemma ucast_32_16_unat: "unat (s :: u32) \<le> 65535 \<Longrightarrow> unat (ucast s :: u16) = unat s"
  by (simp add: unsigned_ucast_eq take_bit_nat_eq_self)

lemma not_and_mask_unat: "unat ((NOT (ucast (w :: u16)) AND 0xFFFF) :: u32) = 65535 - unat w"
proof -
  have m: "(0xFFFF :: u32) = mask 16"
    by (simp add: mask_eq_exp_minus_1)
  have "((NOT (ucast w) AND 0xFFFF) :: u32) = ucast (NOT w)"
    unfolding m by (rule bit_eqI) (auto simp: bit_simps)
  then show ?thesis
    by (simp add: ucast_16_32_unat not16_unat)
qed


lemma and_ffff_unat: "unat ((s :: u32) AND 0xFFFF) = unat s mod 65536"
proof -
  have "s AND 0xFFFF = take_bit 16 s"
    by (simp add: take_bit_eq_mask mask_eq_exp_minus_1)
  then show ?thesis
    by (simp add: unsigned_take_bit_eq take_bit_eq_mod unat_mod)
qed

lemma drop16_unat: "unat (drop_bit 16 (s :: u32)) = unat s div 65536"
  by (simp add: unat_drop_bit_eq drop_bit_eq_div unat_div)

lemma fold_step_unat:
  "unat (((s :: u32) AND 0xFFFF) + drop_bit 16 s) = unat s mod 65536 + unat s div 65536"
proof -
  have "unat s mod 65536 + unat s div 65536 < 2 ^ LENGTH(32)"
    using unat32_less [of s] by simp
  then show ?thesis
    using and_ffff_unat [of s] drop16_unat [of s] by (simp add: unat_add_lem [THEN iffD1])
qed

lemma mod_cancel:
  fixes a b c n :: nat
  assumes "(a + c) mod n = (b + c) mod n"
  shows "a mod n = b mod n"
proof -
  from assms have "int ((a + c) mod n) = int ((b + c) mod n)"
    by simp
  then have "(int a + int c) mod int n = (int b + int c) mod int n"
    by (simp add: of_nat_mod)
  then have "(int a + int c - int c) mod int n = (int b + int c - int c) mod int n"
    by (rule mod_diff_cong) simp
  then have "int (a mod n) = int (b mod n)"
    by (simp add: of_nat_mod)
  then show ?thesis
    by simp
qed

lemma fold_nat_small: "n < 65536 \<Longrightarrow> fold_nat n = n"
  by (simp add: fold_nat_def)

lemma fold_nat_le: "fold_nat n \<le> 65535"
proof -
  have "(n - 1) mod 65535 < 65535"
    by simp
  then show ?thesis
    unfolding fold_nat_def by (simp del: mod_less_divisor)
qed

lemma fold_nat_0: "fold_nat n = 0 \<longleftrightarrow> n = 0"
  by (simp add: fold_nat_def)

lemma fold_nat_mod: "fold_nat n mod 65535 = n mod 65535"
proof (cases "n = 0")
  case True
  then show ?thesis by (simp add: fold_nat_def)
next
  case False
  then have "fold_nat n mod 65535 = ((n - 1) mod 65535 + 1) mod 65535"
    by (simp add: fold_nat_def)
  also have "\<dots> = (n - 1 + 1) mod 65535"
    by (simp only: mod_add_left_eq)
  finally show ?thesis
    using False by simp
qed

lemma fold_nat_cong:
  assumes "0 < a" and "0 < b" and "a mod 65535 = b mod 65535"
  shows "fold_nat a = fold_nat b"
proof -
  from assms have "(a - 1 + 1) mod 65535 = (b - 1 + 1) mod 65535"
    by simp
  then have "(a - 1) mod 65535 = (b - 1) mod 65535"
    by (rule mod_cancel)
  with assms(1,2) show ?thesis
    by (simp add: fold_nat_def)
qed

lemma fold_nat_step:
  assumes "65536 \<le> n"
  shows "fold_nat (n mod 65536 + n div 65536) = fold_nat n"
proof (rule fold_nat_cong)
  from assms have "0 < n div 65536"
    by (simp add: div_greater_zero_iff)
  then show "0 < n mod 65536 + n div 65536"
    by simp
  from assms show "0 < n"
    by simp
  have "n = n mod 65536 + n div 65536 + 65535 * (n div 65536)"
    by simp
  then have "n mod 65535 = (n mod 65536 + n div 65536 + 65535 * (n div 65536)) mod 65535"
    by simp
  also have "\<dots> = (n mod 65536 + n div 65536) mod 65535"
    by (simp only: mod_mult_self2)
  finally show "(n mod 65536 + n div 65536) mod 65535 = n mod 65535"
    by simp
qed

lemma fold_carries_unat: "unat (fold_carries s) = fold_nat (unat s)"
proof (induction s rule: fold_carries.induct)
  case (1 s)
  show ?case
  proof (cases "drop_bit 16 s \<noteq> 0")
    case True
    then have "unat (drop_bit 16 s) \<noteq> 0"
      by (simp add: unat_eq_0)
    then have big: "65536 \<le> unat s"
      by (simp add: drop16_unat div_greater_zero_iff)
    from True have "fold_carries s = fold_carries ((s AND 0xFFFF) + drop_bit 16 s)"
      by (subst fold_carries.simps) simp
    with "1.IH" [OF True] show ?thesis
      by (simp only: fold_step_unat fold_nat_step [OF big])
  next
    case False
    then have "unat (drop_bit 16 s) = 0"
      by simp
    then have "unat s < 65536"
      by (simp add: drop16_unat)
    moreover from False have "fold_carries s = s"
      by (subst fold_carries.simps) simp
    ultimately show ?thesis
      by (simp add: fold_nat_small)
  qed
qed

lemma le16_le: "unat (le16 b0 b1) \<le> 65535"
  using unat16_less [of "le16 b0 b1"] by simp

lemma wsum_bound: "wsum h \<le> 65535 * ((length h + 1) div 2)"
proof (induction h rule: wsum.induct)
  case (1 b0 b1 rest)
  with le16_le [of b0 b1] show ?case by simp
next
  case (2 b0)
  with unat8_less [of b0] show ?case by simp
next
  case 3
  show ?case by simp
qed

lemma wsum_pos: "\<exists>b \<in> set h. b \<noteq> 0 \<Longrightarrow> 0 < wsum h"
proof (induction h rule: wsum.induct)
  case (1 b0 b1 rest)
  from "1.prems" consider "b0 \<noteq> 0" | "b1 \<noteq> 0" | "\<exists>b \<in> set rest. b \<noteq> 0"
    by auto
  then show ?case
  proof cases
    case 1
    then have "0 < unat b0" by (simp add: unat_gt_0)
    then show ?thesis by (simp add: le16_unat)
  next
    case 2
    then have "0 < unat b1" by (simp add: unat_gt_0)
    then show ?thesis by (simp add: le16_unat)
  next
    case 3
    then have "0 < wsum rest" by (rule "1.IH")
    then show ?thesis by simp
  qed
next
  case (2 b0)
  then show ?case by (simp add: unat_gt_0)
next
  case 3
  then show ?case by simp
qed

lemma sum_loop_unat: "unat s + wsum h < 4294967296 \<Longrightarrow> unat (sum_loop h s) = unat s + wsum h"
proof (induction h s rule: sum_loop.induct)
  case (1 b0 b1 rest s)
  from "1.prems" have "unat s + unat (ucast (le16 b0 b1) :: u32) < 2 ^ LENGTH(32)"
    by (simp add: ucast_16_32_unat)
  then have step: "unat (s + ucast (le16 b0 b1)) = unat s + unat (le16 b0 b1)"
    by (simp add: unat_add_lem [THEN iffD1] ucast_16_32_unat)
  with "1.prems" have "unat (sum_loop rest (s + ucast (le16 b0 b1))) =
      unat (s + ucast (le16 b0 b1)) + wsum rest"
    by (intro "1.IH") simp
  with step show ?case by simp
next
  case (2 b0 s)
  from "2.prems" have "unat s + unat (ucast b0 :: u32) < 2 ^ LENGTH(32)"
    by (simp add: ucast_8_32_unat)
  then show ?case
    by (simp add: unat_add_lem [THEN iffD1] ucast_8_32_unat)
next
  case (3 s)
  show ?case by simp
qed

lemma length_replace_field16: "length (replace_field16 h i v) = length h"
  by (simp add: replace_field16_def)

lemma wsum_replace:
  "2 * i + 1 < length h \<Longrightarrow>
     wsum (replace_field16 h i v) + unat (field16 h i) = wsum h + unat v"
proof (induction h arbitrary: i rule: wsum.induct)
  case (1 b0 b1 rest)
  show ?case
  proof (cases i)
    case 0
    then show ?thesis
      by (simp add: replace_field16_def field16_def le16_bytes)
  next
    case (Suc j)
    with "1.prems" have "2 * j + 1 < length rest"
      by simp
    from "1.IH" [OF this] Suc show ?thesis
      by (simp add: replace_field16_def field16_def)
  qed
next
  case (2 b0)
  then show ?case by simp
next
  case 3
  then show ?case by simp
qed

lemma calculate_unat:
  assumes "wsum h < 4294967296"
  shows "unat (calculate h) = 65535 - fold_nat (wsum h)"
proof -
  from assms have "unat (sum_loop h 0) = wsum h"
    using sum_loop_unat [of 0 h] by simp
  then have f: "unat (fold_carries (sum_loop h 0)) = fold_nat (wsum h)"
    by (simp add: fold_carries_unat)
  then have "unat (ucast (fold_carries (sum_loop h 0)) :: u16) = fold_nat (wsum h)"
    using fold_nat_le [of "wsum h"] by (simp add: ucast_32_16_unat)
  then show ?thesis
    by (simp add: calculate_def ucast_not_32_16)
qed

lemma incremental_update_unat:
  "unat (incremental_update old_sum old_val new_val) =
     65535 - fold_nat ((65535 - unat old_sum) + (65535 - unat old_val) + unat new_val)"
proof -
  define a :: u32 where "a = NOT (ucast old_sum) AND 0xFFFF"
  define b :: u32 where "b = NOT (ucast old_val) AND 0xFFFF"
  define c :: u32 where "c = ucast new_val"
  have a: "unat a = 65535 - unat old_sum" and b: "unat b = 65535 - unat old_val"
    and c: "unat c = unat new_val"
    by (simp_all add: a_def b_def c_def not_and_mask_unat ucast_16_32_unat)
  have "unat a + unat b < 2 ^ LENGTH(32)"
    by (simp add: a b)
  then have ab: "unat (a + b) = unat a + unat b"
    by (rule unat_add_lem [THEN iffD1])
  have "unat (a + b) + unat c < 2 ^ LENGTH(32)"
    using unat16_less [of new_val] by (simp add: ab a b c)
  then have abc: "unat (a + b + c) = unat a + unat b + unat c"
    using ab by (simp add: unat_add_lem [THEN iffD1])
  have "unat (fold_carries (a + b + c)) = fold_nat (unat a + unat b + unat c)"
    by (simp add: fold_carries_unat abc)
  then have "unat (ucast (fold_carries (a + b + c)) :: u16) = fold_nat (unat a + unat b + unat c)"
    using fold_nat_le [of "unat a + unat b + unat c"] by (simp add: ucast_32_16_unat)
  then show ?thesis
    by (simp add: incremental_update_def Let_def ucast_not_32_16 a b c
        flip: a_def b_def c_def)
qed

text \<open>
  C6 as stated fails on the header of twenty zero bytes when the checksum field (field 5)
  is replaced by zero: the full computation gives \<open>0xFFFF\<close>, the incremental update of
  it gives \<open>0\<close>.
\<close>

theorem incremental_update_zero_header_counterexample:
  "incremental_update (calculate (replicate 20 0)) (field16 (replicate 20 0) 5) 0 \<noteq>
     calculate (replace_field16 (replicate 20 0) 5 0)"
  by code_simp

text \<open>
  C6, amended. For every header \<open>h0\<close> of at most 131072 bytes (so that the 32-bit
  accumulator of \<open>calculate\<close> cannot wrap), every aligned 16-bit field \<open>i\<close> inside it and
  every new value \<open>v\<close> such that the header with the field replaced is not all zero,
  \<open>incremental_update\<close> of the checksum of \<open>h0\<close> with the old and the new field value is the
  checksum of the header with the field replaced.
\<close>

theorem incremental_update_matches:
  assumes len: "length h0 \<le> 131072" and pos: "2 * i + 1 < length h0"
    and nz: "\<exists>b \<in> set (replace_field16 h0 i v). b \<noteq> 0"
  shows "incremental_update (calculate h0) (field16 h0 i) v = calculate (replace_field16 h0 i v)"
proof -
  define h1 where "h1 = replace_field16 h0 i v"
  define m where "m = unat (field16 h0 i)"
  define m' where "m' = unat v"
  have m: "m \<le> 65535" and m': "m' \<le> 65535"
    using unat16_less [of "field16 h0 i"] unat16_less [of v] by (simp_all add: m_def m'_def)
  have b0: "wsum h0 < 4294967296"
    using wsum_bound [of h0] len by simp
  have b1: "wsum h1 < 4294967296"
    using wsum_bound [of h1] len by (simp add: h1_def length_replace_field16)
  have rel: "wsum h1 + m = wsum h0 + m'"
    unfolding h1_def m_def m'_def using pos by (rule wsum_replace)
  have p1: "0 < wsum h1"
    unfolding h1_def using nz by (rule wsum_pos)
  define x where "x = fold_nat (wsum h0) + (65535 - m) + m'"
  have px: "0 < x"
  proof (rule ccontr)
    assume "\<not> 0 < x"
    then have "fold_nat (wsum h0) = 0" "m = 65535" "m' = 0"
      using m by (simp_all add: x_def)
    with rel p1 show False
      by (simp add: fold_nat_0)
  qed
  have "x + m = fold_nat (wsum h0) + m' + 65535"
    using m by (simp add: x_def)
  then have "(x + m) mod 65535 = (fold_nat (wsum h0) + m' + 65535) mod 65535"
    by (simp only:)
  also have "\<dots> = (fold_nat (wsum h0) + m') mod 65535"
    by (rule mod_add_self2)
  also have "\<dots> = (wsum h0 + m') mod 65535"
    using fold_nat_mod [of "wsum h0"] by (metis mod_add_left_eq)
  also have "\<dots> = (wsum h1 + m) mod 65535"
    by (simp add: rel)
  finally have "x mod 65535 = wsum h1 mod 65535"
    by (rule mod_cancel)
  with px p1 have fx: "fold_nat x = fold_nat (wsum h1)"
    by (rule fold_nat_cong)
  have "unat (incremental_update (calculate h0) (field16 h0 i) v) = 65535 - fold_nat x"
    using fold_nat_le [of "wsum h0"]
    by (simp add: incremental_update_unat calculate_unat [OF b0] x_def m_def m'_def)
  also have "\<dots> = unat (calculate h1)"
    by (simp add: calculate_unat [OF b1] fx)
  finally show ?thesis
    unfolding h1_def by (rule word_unat_eq_iff [THEN iffD2])
qed

theorem incremental_update_matches_witness:
  "length ip_header_example \<le> 131072 \<and> 2 * 9 + 1 < length ip_header_example \<and>
   (\<exists>b \<in> set (replace_field16 ip_header_example 9 0x0A01). b \<noteq> 0) \<and>
   incremental_update (calculate ip_header_example) 0x0201 0x0A01 =
     calculate (replace_field16 ip_header_example 9 0x0A01)"
proof -
  have a: "length ip_header_example \<le> 131072" and b: "2 * 9 + 1 < length ip_header_example"
    by (simp_all add: ip_header_example_def)
  have c: "\<exists>b \<in> set (replace_field16 ip_header_example 9 0x0A01). b \<noteq> 0"
    by code_simp
  have d: "field16 ip_header_example 9 = 0x0201"
    by code_simp
  from a b c incremental_update_matches [OF a b c] show ?thesis
    unfolding d by simp
qed

end
